theory Spec2Isabelle
  imports Main "HOL-Library.Word" "HOL-Library.Product_Lexorder" "HOL-Library.Multiset"
begin

unbundle bit_operations_syntax

section \<open>The vectorization pipeline of c64ttf.py\<close>

text \<open>
  The pipeline turns the packed rows of one character bitmap into closed polygons:
  \<^verbatim>\<open>unpackChar\<close>, \<open>generateEdges\<close>, \<open>scaleEdges\<close>, \<open>mergeContours\<close>, composed by
  \<open>vectorizeGlyph\<close>. Python's integers are unbounded, so coordinates, rows,
  \<open>pixelSize\<close> and \<open>descent\<close> are \<open>int\<close> (the command line converts both with
  \<open>int(...)\<close>). A point \<open>[x, y]\<close> is a pair, an edge \<open>[[x0, y0], [x1, y1]]\<close> is
  a pair of points, and Python's ordering of such nested lists is the lexicographic
  order of the pairs.
\<close>

type_synonym point = "int \<times> int"
type_synonym edge = "point \<times> point"
type_synonym contour = "point list"

datatype error = IndexError

subsection \<open>unpackChar\<close>

text \<open>
  \<^verbatim>\<open>return [[((row >> bit) & 1) == 1 for bit in range(7, -1, -1)]
            for row in reversed(glyphData)]\<close>
\<close>

definition unpackChar :: "int list \<Rightarrow> bool list list" where
  "unpackChar glyphData =
     map (\<lambda>row. map (\<lambda>b. (drop_bit b row) AND 1 = 1) (rev [0..<8])) (rev glyphData)"

subsection \<open>generateEdges\<close>

text \<open>
  Indexing a Python list out of range raises \<open>IndexError\<close>. The indices used by
  \<open>generateEdges\<close> are never negative: \<open>x - 1\<close> and \<open>y - 1\<close> are only read after
  \<open>x == 0\<close> and \<open>y == 0\<close> have failed.
\<close>

definition getitem :: "'a list \<Rightarrow> nat \<Rightarrow> error + 'a" where
  "getitem xs i = (if i < length xs then Inr (xs ! i) else Inl IndexError)"

definition bindE :: "error + 'a \<Rightarrow> ('a \<Rightarrow> error + 'b) \<Rightarrow> error + 'b" where
  "bindE m f = (case m of Inl e \<Rightarrow> Inl e | Inr v \<Rightarrow> f v)"

text \<open>\<open>bitmap[y][x]\<close>\<close>

definition pixel :: "bool list list \<Rightarrow> nat \<Rightarrow> nat \<Rightarrow> error + bool" where
  "pixel bitmap y x = bindE (getitem bitmap y) (\<lambda>row. getitem row x)"

text \<open>A \<open>for\<close> loop over a range, threading the loop state and stopping at the first error.\<close>

fun forRange :: "nat list \<Rightarrow> (nat \<Rightarrow> 's \<Rightarrow> error + 's) \<Rightarrow> 's \<Rightarrow> error + 's" where
  "forRange [] body s = Inr s"
| "forRange (i # is) body s = bindE (body i s) (forRange is body)"

text \<open>
  The body of the inner loop, for the pixel at column \<open>x\<close> of row \<open>y\<close>:
  \<^verbatim>\<open>
  if bitmap[y][x]:
      if x == 0 or not bitmap[y][x - 1]:
          edges.append([[x, y], [x, y + 1]])
      if y == height - 1 or not bitmap[y + 1][x]:
          edges.append([[x, y + 1], [x + 1, y + 1]])
      if x == width - 1 or not bitmap[y][x + 1]:
          edges.append([[x + 1, y + 1], [x + 1, y]])
      if y == 0 or not bitmap[y - 1][x]:
          edges.append([[x + 1, y], [x, y]])
  \<close>
  The loop variables range over \<open>range(height)\<close> and \<open>range(width)\<close>, so inside the
  body \<open>height\<close> and \<open>width\<close> are at least 1 and the subtractions stay in \<open>nat\<close>.
\<close>

definition orNot :: "bool \<Rightarrow> error + bool \<Rightarrow> error + bool" where
  "orNot c m = (if c then Inr True else bindE m (\<lambda>b. Inr (\<not> b)))"

definition appendIf :: "bool \<Rightarrow> edge \<Rightarrow> edge list \<Rightarrow> edge list" where
  "appendIf c e edges = (if c then edges @ [e] else edges)"

definition pixelEdges ::
  "bool list list \<Rightarrow> nat \<Rightarrow> nat \<Rightarrow> nat \<Rightarrow> nat \<Rightarrow> edge list \<Rightarrow> error + edge list" where
  "pixelEdges bitmap height width y x edges =
     bindE (pixel bitmap y x) (\<lambda>opaque.
       if opaque then
         bindE (orNot (x = 0) (pixel bitmap y (x - 1))) (\<lambda>left.
         let edges1 = appendIf left ((int x, int y), (int x, int y + 1)) edges in
         bindE (orNot (y = height - 1) (pixel bitmap (y + 1) x)) (\<lambda>above.
         let edges2 = appendIf above ((int x, int y + 1), (int x + 1, int y + 1)) edges1 in
         bindE (orNot (x = width - 1) (pixel bitmap y (x + 1))) (\<lambda>right.
         let edges3 = appendIf right ((int x + 1, int y + 1), (int x + 1, int y)) edges2 in
         bindE (orNot (y = 0) (pixel bitmap (y - 1) x)) (\<lambda>below.
         Inr (appendIf below ((int x + 1, int y), (int x, int y)) edges3)))))
       else Inr edges)"

text \<open>
  \<^verbatim>\<open>
  edges = []
  height = len(bitmap)
  width = len(bitmap[0])
  for y in range(height):
      for x in range(width):
          ...
  return edges
  \<close>
\<close>

definition generateEdges :: "bool list list \<Rightarrow> error + edge list" where
  "generateEdges bitmap =
     (let height = length bitmap in
      bindE (getitem bitmap 0) (\<lambda>row0.
      let width = length row0 in
      forRange [0..<height] (\<lambda>y. forRange [0..<width] (pixelEdges bitmap height width y)) []))"

subsection \<open>scaleEdges\<close>

text \<open>
  \<^verbatim>\<open>return [[[point[0] * pixelSize, (point[1] - descent) * pixelSize]
             for point in edge] for edge in edges]\<close>
\<close>

definition scalePoint :: "int \<Rightarrow> int \<Rightarrow> point \<Rightarrow> point" where
  "scalePoint pixelSize descent point = (fst point * pixelSize, (snd point - descent) * pixelSize)"

definition scaleEdges :: "edge list \<Rightarrow> int \<Rightarrow> int \<Rightarrow> edge list" where
  "scaleEdges edges pixelSize descent =
     map (\<lambda>edge. (scalePoint pixelSize descent (fst edge), scalePoint pixelSize descent (snd edge))) edges"

subsection \<open>mergeContours\<close>

text \<open>
  The inner loop follows one chain of edges. Its state is the pool \<open>edgeList\<close>, the edge
  \<open>current\<close> and the point list \<open>contour\<close>; \<open>start[0]\<close> is fixed.
  \<^verbatim>\<open>
  while current[1] != start[0]:
      next = [edge for edge in edgeList if edge[0] == current[1]][0]
      if next[1][0] == current[0][0] or next[1][1] == current[0][1]:
          contour[-1] = next[1]
      else:
          contour.append(next[1])
      current = next
      edgeList.remove(current)
  \<close>
  Taking element 0 of an empty list of candidates raises \<open>IndexError\<close>. \<open>contour\<close>
  starts with two points and never shrinks, so \<open>contour[-1] = ...\<close> overwrites its last
  element. \<open>list.remove\<close> deletes the first equal element. A loop that does not return
  is the value \<open>None\<close>.
\<close>

partial_function (option) followChain ::
  "point \<Rightarrow> edge list \<Rightarrow> edge \<Rightarrow> contour \<Rightarrow> (error + edge list \<times> contour) option" where
  "followChain start0 edgeList current contour =
     (if snd current \<noteq> start0 then
        (case filter (\<lambda>edge. fst edge = snd current) edgeList of
           [] \<Rightarrow> Some (Inl IndexError)
         | next # _ \<Rightarrow>
             followChain start0 (remove1 next edgeList) next
               (if fst (snd next) = fst (fst current) \<or> snd (snd next) = snd (fst current)
                then contour[length contour - 1 := snd next]
                else contour @ [snd next]))
      else Some (Inr (edgeList, contour)))"

declare followChain.simps [code]

text \<open>
  \<^verbatim>\<open>
  while len(edgeList) > 1:
      start = edgeList[0]
      edgeList.remove(start)
      current = start
      contour = [start[0], start[1]]
      <inner loop>
      contours.append(contour[:-1])
  return contours
  \<close>
\<close>

partial_function (option) stitch ::
  "edge list \<Rightarrow> contour list \<Rightarrow> (error + contour list) option" where
  "stitch edgeList contours =
     (if length edgeList > 1 then
        (let start = edgeList ! 0 in
         Option.bind (followChain (fst start) (remove1 start edgeList) start [fst start, snd start])
           (\<lambda>r. case r of
              Inl e \<Rightarrow> Some (Inl e)
            | Inr (edgeList', contour) \<Rightarrow> stitch edgeList' (contours @ [butlast contour])))
      else Some (Inr contours))"

declare stitch.simps [code]

text \<open>\<^verbatim>\<open>edgeList = sorted(edges); contours = []\<close>\<close>

definition mergeContours :: "edge list \<Rightarrow> (error + contour list) option" where
  "mergeContours edges = stitch (sort edges) []"

subsection \<open>vectorizeGlyph\<close>

text \<open>
  \<^verbatim>\<open>
  if glyphData is None or len(glyphData) == 0:
      return []
  bitmap = unpackChar(glyphData)
  edges = generateEdges(bitmap)
  scaledEdges = scaleEdges(edges, pixelSize, descent)
  return mergeContours(scaledEdges)
  \<close>
\<close>

definition vectorizeGlyph :: "int list option \<Rightarrow> int \<Rightarrow> int \<Rightarrow> (error + contour list) option" where
  "vectorizeGlyph glyphData pixelSize descent =
     (case glyphData of
        None \<Rightarrow> Some (Inr [])
      | Some rows \<Rightarrow>
          if length rows = 0 then Some (Inr [])
          else (case generateEdges (unpackChar rows) of
                  Inl e \<Rightarrow> Some (Inl e)
                | Inr edges \<Rightarrow> mergeContours (scaleEdges edges pixelSize descent)))"

subsection \<open>The inverse of the scaling, as the specification words it\<close>

text \<open>
  The source has no inverse of \<open>scaleEdges\<close>. The specification describes one: divide
  each output coordinate by the scale and add the descent back to the y coordinate.
\<close>

definition unscalePoint :: "int \<Rightarrow> int \<Rightarrow> point \<Rightarrow> point" where
  "unscalePoint pixelSize descent point =
     (fst point div pixelSize, snd point div pixelSize + descent)"

definition unscaleEdges :: "edge list \<Rightarrow> int \<Rightarrow> int \<Rightarrow> edge list" where
  "unscaleEdges edges pixelSize descent =
     map (\<lambda>edge. (unscalePoint pixelSize descent (fst edge),
                  unscalePoint pixelSize descent (snd edge))) edges"

subsection \<open>Grids, filled cells and the sides of a cell\<close>

text \<open>
  A pixel grid is rectangular when it has at least one row and all rows are as long as
  the first one; \<open>unpackChar\<close> only builds such grids. Cell \<open>(x, y)\<close> is filled when it
  lies inside the grid and its pixel is set; a cell outside the grid is not filled.
\<close>

definition rectangular :: "bool list list \<Rightarrow> bool" where
  "rectangular bitmap = (bitmap \<noteq> [] \<and> (\<forall>row \<in> set bitmap. length row = length (bitmap ! 0)))"

definition filled :: "bool list list \<Rightarrow> int \<Rightarrow> int \<Rightarrow> bool" where
  "filled bitmap x y =
     (0 \<le> x \<and> 0 \<le> y \<and> nat y < length bitmap \<and> nat x < length (bitmap ! nat y) \<and>
      bitmap ! nat y ! nat x)"

text \<open>The four directed unit edges around cell \<open>(x, y)\<close>, clockwise.\<close>

definition leftEdge :: "int \<Rightarrow> int \<Rightarrow> edge" where
  "leftEdge x y = ((x, y), (x, y + 1))"

definition topEdge :: "int \<Rightarrow> int \<Rightarrow> edge" where
  "topEdge x y = ((x, y + 1), (x + 1, y + 1))"

definition rightEdge :: "int \<Rightarrow> int \<Rightarrow> edge" where
  "rightEdge x y = ((x + 1, y + 1), (x + 1, y))"

definition bottomEdge :: "int \<Rightarrow> int \<Rightarrow> edge" where
  "bottomEdge x y = ((x + 1, y), (x, y))"

text \<open>The edges of the sides of cell \<open>(x, y)\<close> whose neighbour is not filled, in the order
  left, top, right, bottom; none for a cell that is not filled.\<close>

definition sideEdges :: "bool list list \<Rightarrow> int \<Rightarrow> int \<Rightarrow> edge list" where
  "sideEdges bitmap x y =
     (if filled bitmap x y then
        (if \<not> filled bitmap (x - 1) y then [leftEdge x y] else []) @
        (if \<not> filled bitmap x (y + 1) then [topEdge x y] else []) @
        (if \<not> filled bitmap (x + 1) y then [rightEdge x y] else []) @
        (if \<not> filled bitmap x (y - 1) then [bottomEdge x y] else [])
      else [])"

definition gridEdges :: "bool list list \<Rightarrow> edge list" where
  "gridEdges bitmap =
     concat (map (\<lambda>y. concat (map (\<lambda>x. sideEdges bitmap (int x) (int y))
                                   [0..<length (bitmap ! 0)]))
                 [0..<length bitmap])"

subsection \<open>Maps of the plane that the stitching cannot tell apart\<close>

text \<open>
  \<open>mergeContours\<close> only compares coordinates for equality and edges for their order.
  A map of points that keeps the equality of x coordinates, the equality of y
  coordinates and the order of points therefore commutes with it. Scaling by a
  positive factor and translation are such maps.
\<close>

definition mapEdge :: "(point \<Rightarrow> point) \<Rightarrow> edge \<Rightarrow> edge" where
  "mapEdge h edge = (h (fst edge), h (snd edge))"

definition coordwise :: "(point \<Rightarrow> point) \<Rightarrow> bool" where
  "coordwise h =
     (\<forall>p q. ((fst (h p) = fst (h q)) = (fst p = fst q)) \<and>
            ((snd (h p) = snd (h q)) = (snd p = snd q)) \<and>
            ((h p \<le> h q) = (p \<le> q)))"

definition translatePoint :: "int \<Rightarrow> int \<Rightarrow> point \<Rightarrow> point" where
  "translatePoint a b point = (fst point + a, snd point + b)"

text \<open>The results of the two loops, with the map applied to every point.\<close>

definition mapChain ::
  "(point \<Rightarrow> point) \<Rightarrow> (error + edge list \<times> contour) \<Rightarrow> (error + edge list \<times> contour)" where
  "mapChain h r =
     (case r of Inl e \<Rightarrow> Inl e
      | Inr (pool, contour) \<Rightarrow> Inr (map (mapEdge h) pool, map h contour))"

definition mapResult :: "(point \<Rightarrow> point) \<Rightarrow> (error + contour list) \<Rightarrow> (error + contour list)" where
  "mapResult h r = (case r of Inl e \<Rightarrow> Inl e | Inr contours \<Rightarrow> Inr (map (map h) contours))"

subsection \<open>Closed polygons\<close>

text \<open>
  A contour is stored without its closing edge. Its segments, as a closed polygon, join
  every point to the next one and the last point to the first. The polygon is
  rectilinear when it has at least three points and every segment, the closing one
  included, joins two different points on one horizontal or vertical line.
\<close>

definition closedSegments :: "contour \<Rightarrow> (point \<times> point) list" where
  "closedSegments c = zip c (rotate1 c)"

definition closedRectilinear :: "contour \<Rightarrow> bool" where
  "closedRectilinear c =
     (3 \<le> length c \<and>
      (\<forall>seg \<in> set (closedSegments c).
         fst seg \<noteq> snd seg \<and> (fst (fst seg) = fst (snd seg) \<or> snd (fst seg) = snd (snd seg))))"

subsection \<open>Cells enclosed by a list of contours\<close>

text \<open>
  Whether the unit cell with lower left corner \<open>c = (cx, cy)\<close> is enclosed is decided at
  its centre \<open>(cx + 1/2, cy + 1/2)\<close> by the ray that leaves the centre downward.
  A directed segment from \<open>p\<close> to \<open>q\<close> with \<open>fst p < fst q\<close> meets the vertical line
  through the centre when \<open>fst p \<le> cx < fst q\<close>; \<open>below c p q\<close> says that it does so
  under the centre (the inequality is the comparison of the two heights, multiplied by
  \<open>2 * (fst q - fst p)\<close> to stay in the integers). A crossing from left to right counts
  \<open>1\<close>, a crossing from right to left counts \<open>-1\<close>. The winding number of the cell is
  the sum over all segments of all closed contours; the cell is inside by the nonzero
  rule when this sum is not zero, and by the even-odd rule when the number of crossings
  is odd.
\<close>

definition below :: "point \<Rightarrow> point \<Rightarrow> point \<Rightarrow> bool" where
  "below c p q =
     (2 * snd p * (fst q - fst p) + (snd q - snd p) * (2 * fst c + 1 - 2 * fst p)
        < (2 * snd c + 1) * (fst q - fst p))"

definition crossing :: "point \<Rightarrow> point \<times> point \<Rightarrow> int" where
  "crossing c seg =
     (if fst (fst seg) \<le> fst c \<and> fst c < fst (snd seg) \<and> below c (fst seg) (snd seg) then 1
      else if fst (snd seg) \<le> fst c \<and> fst c < fst (fst seg) \<and> below c (snd seg) (fst seg) then - 1
      else 0)"

definition winding :: "contour list \<Rightarrow> point \<Rightarrow> int" where
  "winding contours c =
     sum_list (map (\<lambda>contour. sum_list (map (crossing c) (closedSegments contour))) contours)"

definition crossings :: "contour list \<Rightarrow> point \<Rightarrow> nat" where
  "crossings contours c =
     sum_list (map (\<lambda>contour. sum_list (map (\<lambda>seg. nat \<bar>crossing c seg\<bar>) (closedSegments contour)))
                   contours)"

definition insideNonzero :: "contour list \<Rightarrow> point \<Rightarrow> bool" where
  "insideNonzero contours c = (winding contours c \<noteq> 0)"

definition insideEvenOdd :: "contour list \<Rightarrow> point \<Rightarrow> bool" where
  "insideEvenOdd contours c = odd (crossings contours c)"

subsection \<open>Quantities that the stitching preserves\<close>

text \<open>
  An edge is axial when its end points differ in exactly one coordinate. \<open>flux v\<close> counts
  an edge that leaves the point \<open>v\<close> with \<open>1\<close> and one that enters it with \<open>-1\<close>: a pool of
  edges is balanced when the flux of every point sums to zero. \<open>pathSegments\<close> are the
  segments of a point list that is not closed, and a point \<open>P\<close> is aligned with an edge
  when the three points lie on one horizontal or on one vertical line.
\<close>

definition axial :: "edge \<Rightarrow> bool" where
  "axial edge = ((fst (fst edge) = fst (snd edge)) \<noteq> (snd (fst edge) = snd (snd edge)))"

definition flux :: "point \<Rightarrow> edge \<Rightarrow> int" where
  "flux v edge = (if fst edge = v then 1 else 0) - (if snd edge = v then 1 else 0)"

definition edgeSum :: "(edge \<Rightarrow> int) \<Rightarrow> edge list \<Rightarrow> int" where
  "edgeSum f edges = sum_list (map f edges)"

definition pathSegments :: "contour \<Rightarrow> (point \<times> point) list" where
  "pathSegments c = zip c (tl c)"

definition aligned :: "point \<Rightarrow> edge \<Rightarrow> bool" where
  "aligned P edge =
     (snd P = snd (fst edge) \<and> snd (fst edge) = snd (snd edge) \<or>
      fst P = fst (fst edge) \<and> fst (fst edge) = fst (snd edge))"

text \<open>The sum of a quantity around the four sides of cell \<open>(x, y)\<close>.\<close>

definition around :: "(edge \<Rightarrow> int) \<Rightarrow> int \<Rightarrow> int \<Rightarrow> int" where
  "around f x y = f (leftEdge x y) + f (topEdge x y) + f (rightEdge x y) + f (bottomEdge x y)"

section \<open>Properties\<close>

subsection \<open>unpackChar: orientation of the grid\<close>

lemma shift_and_one_bit: "((drop_bit b (row::int)) AND 1 = 1) = bit row b"
  by (simp add: and_one_eq bit_iff_odd_drop_bit mod_2_eq_odd)

lemma rev_upt_8: "rev [0..<8] = map (\<lambda>c. 7 - c) [0..<8::nat]"
  by code_simp

lemma unpackChar_length: "length (unpackChar rows) = length rows"
  by (simp add: unpackChar_def)

lemma unpackChar_nth:
  assumes "i < length rows"
  shows "unpackChar rows ! i = map (\<lambda>c. bit (rows ! (length rows - 1 - i)) (7 - c)) [0..<8]"
proof -
  have "unpackChar rows ! i = map (\<lambda>b. bit (rev rows ! i) b) (rev [0..<8])"
    using assms by (simp add: unpackChar_def shift_and_one_bit)
  also have "rev rows ! i = rows ! (length rows - 1 - i)"
    using assms by (simp add: rev_nth)
  also have "map (\<lambda>b. bit (rows ! (length rows - 1 - i)) b) (rev [0..<8])
      = map (\<lambda>c. bit (rows ! (length rows - 1 - i)) (7 - c)) [0..<8]"
    by (simp add: rev_upt_8 o_def)
  finally show ?thesis .
qed

text \<open>
  C9. For \<open>n\<close> input rows, \<open>unpackChar\<close> returns \<open>n\<close> rows of 8 pixels; output row \<open>i\<close>
  is input row \<open>n - 1 - i\<close> (row 0 is the last input row), and column \<open>c\<close> of a row is
  bit \<open>7 - c\<close> of the low 8 bits of the row integer, so column 0 is the most significant
  of these bits and the bit order is kept left to right.
\<close>

theorem unpackChar_orientation:
  "length (unpackChar rows) = length rows \<and>
   (\<forall>i<length rows. length (unpackChar rows ! i) = 8 \<and>
      (\<forall>c<8. unpackChar rows ! i ! c =
         bit (take_bit 8 (rows ! (length rows - 1 - i))) (7 - c)))"
  by (auto simp add: unpackChar_length unpackChar_nth bit_take_bit_iff)

theorem unpackChar_orientation_witness:
  "unpackChar [1, 128] ! 0 ! 0 = True \<and> unpackChar [1, 128] ! 1 ! 7 = True \<and>
   unpackChar [1, 128] ! 1 ! 0 = False"
  using unpackChar_orientation [of "[1, 128]"] by (simp add: bit_take_bit_iff)

subsection \<open>scaleEdges: pointwise map and round trip\<close>

lemma unscale_scale_point: "s \<noteq> 0 \<Longrightarrow> unscalePoint s d (scalePoint s d p) = p"
  by (simp add: unscalePoint_def scalePoint_def)

text \<open>
  C10. \<open>scaleEdges\<close> keeps the number and the order of the edges, and sends the start and
  the end point \<open>(x, y)\<close> of the edge at each position to \<open>(x * scale, (y - descent) * scale)\<close>;
  for a nonzero scale, dividing every output coordinate by the scale and adding the
  descent back to the y coordinate gives the original edge list.
\<close>

theorem scaleEdges_pointwise:
  "length (scaleEdges edges s d) = length edges \<and>
   (\<forall>i<length edges.
      fst (scaleEdges edges s d ! i) = (fst (fst (edges ! i)) * s, (snd (fst (edges ! i)) - d) * s) \<and>
      snd (scaleEdges edges s d ! i) = (fst (snd (edges ! i)) * s, (snd (snd (edges ! i)) - d) * s)) \<and>
   (s \<noteq> 0 \<longrightarrow> unscaleEdges (scaleEdges edges s d) s d = edges)"
  by (simp add: scaleEdges_def unscaleEdges_def unscale_scale_point o_def) (simp add: scalePoint_def)

theorem scaleEdges_pointwise_witness:
  "scaleEdges [((0, 0), (0, 1)), ((0, 1), (1, 1))] 64 1 ! 1 = ((0, 0), (64, 0)) \<and>
   unscaleEdges (scaleEdges [((0, 0), (0, 1)), ((0, 1), (1, 1))] 64 1) 64 1
     = [((0, 0), (0, 1)), ((0, 1), (1, 1))]"
  using scaleEdges_pointwise [of "[((0, 0), (0, 1)), ((0, 1), (1, 1))]" 64 1]
  by (simp add: prod_eq_iff)

subsection \<open>generateEdges on rectangular grids\<close>

lemma bindE_simps [simp]: "bindE (Inr v) f = f v" "bindE (Inl e) f = Inl e"
  by (simp_all add: bindE_def)

lemma forRange_append:
  assumes "\<And>i s. i \<in> set ns \<Longrightarrow> body i s = Inr (s @ f i)"
  shows "forRange ns body s = Inr (s @ concat (map f ns))"
  using assms by (induction ns arbitrary: s) simp_all

lemma rectangular_nth:
  assumes "rectangular g" "y < length g"
  shows "length (g ! y) = length (g ! 0)"
  using assms unfolding rectangular_def by (meson nth_mem)

lemma rectangular_nonempty: "rectangular g \<Longrightarrow> 0 < length g"
  unfolding rectangular_def by simp

lemma pixel_rect:
  assumes "rectangular g" "y < length g" "x < length (g ! 0)"
  shows "pixel g y x = Inr (g ! y ! x)"
  using assms by (simp add: pixel_def getitem_def rectangular_nth)

lemma filled_rect_nat:
  assumes "rectangular g"
  shows "filled g (int x) (int y) = (y < length g \<and> x < length (g ! 0) \<and> g ! y ! x)"
proof (cases "y < length g")
  case True
  from rectangular_nth [OF assms True] True show ?thesis by (simp add: filled_def)
next
  case False
  then show ?thesis by (simp add: filled_def)
qed

lemma filled_nonneg: "filled g x y \<Longrightarrow> 0 \<le> x \<and> 0 \<le> y"
  by (simp add: filled_def)

lemma test_left:
  assumes "rectangular g" "y < length g" "x < length (g ! 0)"
  shows "orNot (x = 0) (pixel g y (x - 1)) = Inr (\<not> filled g (int x - 1) (int y))"
proof (cases x)
  case 0 then show ?thesis using filled_nonneg [of g "-1" "int y"] by (auto simp add: orNot_def)
next
  case (Suc n)
  have e: "int (Suc n) - 1 = int n" by simp
  show ?thesis using assms unfolding Suc e by (simp add: orNot_def pixel_rect filled_rect_nat)
qed

lemma test_below:
  assumes "rectangular g" "y < length g" "x < length (g ! 0)"
  shows "orNot (y = 0) (pixel g (y - 1) x) = Inr (\<not> filled g (int x) (int y - 1))"
proof (cases y)
  case 0 then show ?thesis using filled_nonneg [of g "int x" "-1"] by (auto simp add: orNot_def)
next
  case (Suc n)
  have e: "int (Suc n) - 1 = int n" by simp
  show ?thesis using assms unfolding Suc e by (simp add: orNot_def pixel_rect filled_rect_nat)
qed

lemma test_above:
  assumes "rectangular g" "y < length g" "x < length (g ! 0)"
  shows "orNot (y = length g - 1) (pixel g (y + 1) x) = Inr (\<not> filled g (int x) (int y + 1))"
proof -
  have e: "int y + 1 = int (y + 1)" by simp
  show ?thesis
    using assms unfolding e filled_rect_nat [OF assms(1)]
    by (cases "y = length g - 1") (auto simp add: orNot_def pixel_rect)
qed

lemma test_right:
  assumes "rectangular g" "y < length g" "x < length (g ! 0)"
  shows "orNot (x = length (g ! 0) - 1) (pixel g y (x + 1)) = Inr (\<not> filled g (int x + 1) (int y))"
proof -
  have e: "int x + 1 = int (x + 1)" by simp
  show ?thesis
    using assms unfolding e filled_rect_nat [OF assms(1)]
    by (cases "x = length (g ! 0) - 1") (auto simp add: orNot_def pixel_rect)
qed

lemma pixelEdges_rect:
  assumes "rectangular g" "y < length g" "x < length (g ! 0)"
  shows "pixelEdges g (length g) (length (g ! 0)) y x edges = Inr (edges @ sideEdges g (int x) (int y))"
proof -
  have f: "filled g (int x) (int y) = g ! y ! x"
    using assms by (simp add: filled_rect_nat)
  show ?thesis
    unfolding pixelEdges_def test_left [OF assms] test_above [OF assms] test_right [OF assms]
      test_below [OF assms] pixel_rect [OF assms] bindE_simps Let_def sideEdges_def f
      appendIf_def leftEdge_def topEdge_def rightEdge_def bottomEdge_def
    by simp
qed

lemma generateEdges_rect:
  assumes "rectangular g"
  shows "generateEdges g = Inr (gridEdges g)"
proof -
  have g0: "getitem g 0 = Inr (g ! 0)"
    using rectangular_nonempty [OF assms] by (simp add: getitem_def)
  have row: "forRange [0..<length (g ! 0)] (pixelEdges g (length g) (length (g ! 0)) y) s
      = Inr (s @ concat (map (\<lambda>x. sideEdges g (int x) (int y)) [0..<length (g ! 0)]))"
    if "y \<in> set [0..<length g]" for y s
  proof (rule forRange_append)
    fix i s assume "i \<in> set [0..<length (g ! 0)]"
    then show "pixelEdges g (length g) (length (g ! 0)) y i s = Inr (s @ sideEdges g (int i) (int y))"
      using that assms by (simp add: pixelEdges_rect)
  qed
  have "forRange [0..<length g] (\<lambda>y. forRange [0..<length (g ! 0)] (pixelEdges g (length g) (length (g ! 0)) y)) []
     = Inr ([] @ concat (map (\<lambda>y. concat (map (\<lambda>x. sideEdges g (int x) (int y)) [0..<length (g ! 0)])) [0..<length g]))"
    by (rule forRange_append) (rule row)
  then show ?thesis
    unfolding generateEdges_def gridEdges_def Let_def g0 bindE_simps by simp
qed

lemma filled_in_range:
  assumes "rectangular g" "filled g x y"
  shows "0 \<le> x \<and> 0 \<le> y \<and> nat y < length g \<and> nat x < length (g ! 0)"
proof -
  from assms(2) have a: "0 \<le> x" "0 \<le> y" "nat y < length g" "nat x < length (g ! nat y)"
    by (simp_all add: filled_def)
  from rectangular_nth [OF assms(1) a(3)] a show ?thesis by simp
qed

lemma sideEdges_unfilled: "\<not> filled g x y \<Longrightarrow> sideEdges g x y = []"
  by (simp add: sideEdges_def)

lemma set_gridEdges:
  "set (gridEdges g) =
     (\<Union>y\<in>{0..<length g}. \<Union>x\<in>{0..<length (g ! 0)}. set (sideEdges g (int x) (int y)))"
  by (simp add: gridEdges_def)

lemma in_gridEdges:
  assumes "rectangular g"
  shows "e \<in> set (gridEdges g) \<longleftrightarrow> (\<exists>x y. e \<in> set (sideEdges g x y))"
proof
  assume "e \<in> set (gridEdges g)"
  then show "\<exists>x y. e \<in> set (sideEdges g x y)"
    unfolding set_gridEdges by blast
next
  assume "\<exists>x y. e \<in> set (sideEdges g x y)"
  then obtain x y where e: "e \<in> set (sideEdges g x y)" by blast
  have f: "filled g x y"
  proof (rule ccontr)
    assume "\<not> filled g x y"
    from sideEdges_unfilled [OF this] e show False by simp
  qed
  from filled_in_range [OF assms f]
  have r: "nat y \<in> {0..<length g}" "nat x \<in> {0..<length (g ! 0)}"
    and i: "int (nat x) = x" "int (nat y) = y"
    by simp_all
  have "e \<in> set (sideEdges g (int (nat x)) (int (nat y)))"
    unfolding i by (rule e)
  with r show "e \<in> set (gridEdges g)"
    unfolding set_gridEdges by blast
qed

lemma set_if_single: "set (if c then [a] else []) = (if c then {a} else {})"
  by simp

lemma in_sideEdges:
  "e \<in> set (sideEdges g x y) \<longleftrightarrow>
     filled g x y \<and>
     (\<not> filled g (x - 1) y \<and> e = leftEdge x y \<or>
      \<not> filled g x (y + 1) \<and> e = topEdge x y \<or>
      \<not> filled g (x + 1) y \<and> e = rightEdge x y \<or>
      \<not> filled g x (y - 1) \<and> e = bottomEdge x y)"
proof (cases "filled g x y")
  case False
  then show ?thesis by (simp add: sideEdges_def)
next
  case True
  have "set (sideEdges g x y) =
      (if \<not> filled g (x - 1) y then {leftEdge x y} else {}) \<union>
      (if \<not> filled g x (y + 1) then {topEdge x y} else {}) \<union>
      (if \<not> filled g (x + 1) y then {rightEdge x y} else {}) \<union>
      (if \<not> filled g x (y - 1) then {bottomEdge x y} else {})"
    unfolding sideEdges_def using True by (simp only: if_True set_append set_if_single Un_assoc)
  then show ?thesis using True by (simp only: Un_iff) (simp split: if_splits)
qed

lemma leftEdge_in:
  "rectangular g \<Longrightarrow> filled g x y \<Longrightarrow> \<not> filled g (x - 1) y \<Longrightarrow> ((x, y), (x, y + 1)) \<in> set (gridEdges g)"
  unfolding in_gridEdges in_sideEdges leftEdge_def by blast

lemma topEdge_in:
  "rectangular g \<Longrightarrow> filled g x y \<Longrightarrow> \<not> filled g x (y + 1) \<Longrightarrow> ((x, y + 1), (x + 1, y + 1)) \<in> set (gridEdges g)"
  unfolding in_gridEdges in_sideEdges topEdge_def by blast

lemma rightEdge_in:
  "rectangular g \<Longrightarrow> filled g x y \<Longrightarrow> \<not> filled g (x + 1) y \<Longrightarrow> ((x + 1, y + 1), (x + 1, y)) \<in> set (gridEdges g)"
  unfolding in_gridEdges in_sideEdges rightEdge_def by blast

lemma bottomEdge_in:
  "rectangular g \<Longrightarrow> filled g x y \<Longrightarrow> \<not> filled g x (y - 1) \<Longrightarrow> ((x + 1, y), (x, y)) \<in> set (gridEdges g)"
  unfolding in_gridEdges in_sideEdges bottomEdge_def by blast

lemma gridEdges_cases:
  assumes "rectangular g" "e \<in> set (gridEdges g)"
  obtains (left) x y where "filled g x y" "\<not> filled g (x - 1) y" "e = ((x, y), (x, y + 1))"
    | (top) x y where "filled g x y" "\<not> filled g x (y + 1)" "e = ((x, y + 1), (x + 1, y + 1))"
    | (right) x y where "filled g x y" "\<not> filled g (x + 1) y" "e = ((x + 1, y + 1), (x + 1, y))"
    | (bottom) x y where "filled g x y" "\<not> filled g x (y - 1)" "e = ((x + 1, y), (x, y))"
  using assms unfolding in_gridEdges [OF assms(1)] in_sideEdges leftEdge_def topEdge_def rightEdge_def bottomEdge_def
  by blast

lemma gridEdges_successor:
  assumes "rectangular g" "e \<in> set (gridEdges g)"
  shows "\<exists>e'\<in>set (gridEdges g). e' \<noteq> e \<and> fst e' = snd e"
  using assms
proof (cases rule: gridEdges_cases)
  case (left x y)
  consider "\<not> filled g x (y + 1)" | "filled g x (y + 1)" "\<not> filled g (x - 1) (y + 1)"
    | "filled g x (y + 1)" "filled g (x - 1) (y + 1)" by blast
  then show ?thesis
  proof cases
    case 1
    show ?thesis unfolding left(3) by (rule bexI [OF _ topEdge_in [OF assms(1) left(1) 1]]) simp
  next
    case 2
    show ?thesis unfolding left(3) by (rule bexI [OF _ leftEdge_in [OF assms(1) 2]]) simp
  next
    case 3
    have nf: "\<not> filled g (x - 1) (y + 1 - 1)" using left(2) by simp
    show ?thesis unfolding left(3) by (rule bexI [OF _ bottomEdge_in [OF assms(1) 3(2) nf]]) simp
  qed
next
  case (top x y)
  consider "\<not> filled g (x + 1) y" | "filled g (x + 1) y" "\<not> filled g (x + 1) (y + 1)"
    | "filled g (x + 1) y" "filled g (x + 1) (y + 1)" by blast
  then show ?thesis
  proof cases
    case 1
    show ?thesis unfolding top(3) by (rule bexI [OF _ rightEdge_in [OF assms(1) top(1) 1]]) simp
  next
    case 2
    show ?thesis unfolding top(3) by (rule bexI [OF _ topEdge_in [OF assms(1) 2]]) simp
  next
    case 3
    have nf: "\<not> filled g (x + 1 - 1) (y + 1)" using top(2) by simp
    show ?thesis unfolding top(3) by (rule bexI [OF _ leftEdge_in [OF assms(1) 3(2) nf]]) simp
  qed
next
  case (right x y)
  consider "\<not> filled g x (y - 1)" | "filled g x (y - 1)" "\<not> filled g (x + 1) (y - 1)"
    | "filled g x (y - 1)" "filled g (x + 1) (y - 1)" by blast
  then show ?thesis
  proof cases
    case 1
    show ?thesis unfolding right(3) by (rule bexI [OF _ bottomEdge_in [OF assms(1) right(1) 1]]) simp
  next
    case 2
    show ?thesis unfolding right(3) by (rule bexI [OF _ rightEdge_in [OF assms(1) 2]]) simp
  next
    case 3
    have nf: "\<not> filled g (x + 1) (y - 1 + 1)" using right(2) by simp
    show ?thesis unfolding right(3) by (rule bexI [OF _ topEdge_in [OF assms(1) 3(2) nf]]) simp
  qed
next
  case (bottom x y)
  consider "\<not> filled g (x - 1) y" | "filled g (x - 1) y" "\<not> filled g (x - 1) (y - 1)"
    | "filled g (x - 1) y" "filled g (x - 1) (y - 1)" by blast
  then show ?thesis
  proof cases
    case 1
    show ?thesis unfolding bottom(3) by (rule bexI [OF _ leftEdge_in [OF assms(1) bottom(1) 1]]) simp
  next
    case 2
    show ?thesis unfolding bottom(3) by (rule bexI [OF _ bottomEdge_in [OF assms(1) 2]]) simp
  next
    case 3
    have nf: "\<not> filled g (x - 1 + 1) (y - 1)" using bottom(2) by simp
    show ?thesis unfolding bottom(3) by (rule bexI [OF _ rightEdge_in [OF assms(1) 3(2) nf]]) simp
  qed
qed


lemma distinct_concat_map:
  assumes "distinct ns" "\<And>n. n \<in> set ns \<Longrightarrow> distinct (f n)"
    "\<And>n m. n \<in> set ns \<Longrightarrow> m \<in> set ns \<Longrightarrow> n \<noteq> m \<Longrightarrow> set (f n) \<inter> set (f m) = {}"
  shows "distinct (concat (map f ns))"
  using assms
proof (induction ns)
  case Nil
  then show ?case by simp
next
  case (Cons n ns)
  have "distinct (concat (map f ns))"
    by (rule Cons.IH) (use Cons.prems in auto)
  moreover have "distinct (f n)" using Cons.prems(2) by simp
  moreover have "set (f n) \<inter> set (f m) = {}" if "m \<in> set ns" for m
    using Cons.prems(1) Cons.prems(3) [of n m] that by auto
  ultimately show ?case by auto
qed

lemma distinct_sideEdges: "distinct (sideEdges g x y)"
  by (simp add: sideEdges_def leftEdge_def topEdge_def rightEdge_def bottomEdge_def)

lemma sideEdges_cell:
  assumes "e \<in> set (sideEdges g x y)" "e \<in> set (sideEdges g x' y')"
  shows "x = x' \<and> y = y'"
proof -
  have a: "e = leftEdge x y \<or> e = topEdge x y \<or> e = rightEdge x y \<or> e = bottomEdge x y"
    using assms(1) unfolding in_sideEdges by blast
  have b: "e = leftEdge x' y' \<or> e = topEdge x' y' \<or> e = rightEdge x' y' \<or> e = bottomEdge x' y'"
    using assms(2) unfolding in_sideEdges by blast
  show ?thesis
    using a b unfolding leftEdge_def topEdge_def rightEdge_def bottomEdge_def by auto
qed

lemma distinct_gridEdges: "distinct (gridEdges g)"
  unfolding gridEdges_def
proof (rule distinct_concat_map)
  show "distinct [0..<length g]" by simp
next
  fix y
  show "distinct (concat (map (\<lambda>x. sideEdges g (int x) (int y)) [0..<length (g ! 0)]))"
  proof (rule distinct_concat_map)
    show "distinct [0..<length (g ! 0)]" by simp
  next
    fix x show "distinct (sideEdges g (int x) (int y))" by (rule distinct_sideEdges)
  next
    fix x x' :: nat assume "x \<noteq> x'"
    then show "set (sideEdges g (int x) (int y)) \<inter> set (sideEdges g (int x') (int y)) = {}"
      using sideEdges_cell [of _ g "int x" "int y" "int x'" "int y"] by auto
  qed
next
  fix y y' :: nat assume "y \<noteq> y'"
  then show "set (concat (map (\<lambda>x. sideEdges g (int x) (int y)) [0..<length (g ! 0)])) \<inter>
        set (concat (map (\<lambda>x. sideEdges g (int x) (int y')) [0..<length (g ! 0)])) = {}"
    using sideEdges_cell [of _ g _ "int y" _ "int y'"] by auto
qed

text \<open>
  C6. On a rectangular grid \<open>generateEdges\<close> returns a list of pairwise different edges,
  and an edge is in it exactly when it is the left, top, right or bottom edge, with the
  coordinates \<open>(x,y)\<rightarrow>(x,y+1)\<close>, \<open>(x,y+1)\<rightarrow>(x+1,y+1)\<close>, \<open>(x+1,y+1)\<rightarrow>(x+1,y)\<close>,
  \<open>(x+1,y)\<rightarrow>(x,y)\<close>, of a filled cell \<open>(x, y)\<close> whose neighbour on that side is outside
  the grid or not filled.
\<close>

theorem generateEdges_sides:
  assumes "rectangular g"
  shows "\<exists>es. generateEdges g = Inr es \<and> distinct es \<and>
     (\<forall>e. e \<in> set es \<longleftrightarrow>
        (\<exists>x y. filled g x y \<and>
           (\<not> filled g (x - 1) y \<and> e = ((x, y), (x, y + 1)) \<or>
            \<not> filled g x (y + 1) \<and> e = ((x, y + 1), (x + 1, y + 1)) \<or>
            \<not> filled g (x + 1) y \<and> e = ((x + 1, y + 1), (x + 1, y)) \<or>
            \<not> filled g x (y - 1) \<and> e = ((x + 1, y), (x, y)))))"
proof (intro exI conjI allI)
  show "generateEdges g = Inr (gridEdges g)" by (rule generateEdges_rect [OF assms])
  show "distinct (gridEdges g)" by (rule distinct_gridEdges)
  fix e
  show "e \<in> set (gridEdges g) \<longleftrightarrow>
        (\<exists>x y. filled g x y \<and>
           (\<not> filled g (x - 1) y \<and> e = ((x, y), (x, y + 1)) \<or>
            \<not> filled g x (y + 1) \<and> e = ((x, y + 1), (x + 1, y + 1)) \<or>
            \<not> filled g (x + 1) y \<and> e = ((x + 1, y + 1), (x + 1, y)) \<or>
            \<not> filled g x (y - 1) \<and> e = ((x + 1, y), (x, y))))"
    unfolding in_gridEdges [OF assms] in_sideEdges leftEdge_def topEdge_def rightEdge_def
      bottomEdge_def ..
qed

theorem generateEdges_sides_witness:
  "rectangular [[True, True]] \<and>
   (\<exists>es. generateEdges [[True, True]] = Inr es \<and> ((0, 0), (0, 1)) \<in> set es \<and>
      ((2, 1), (2, 0)) \<in> set es)"
proof -
  have r: "rectangular [[True, True]]" by (simp add: rectangular_def)
  from generateEdges_sides [OF r] obtain es where
    es: "generateEdges [[True, True]] = Inr es" and
    m: "\<And>e. e \<in> set es \<longleftrightarrow>
        (\<exists>x y. filled [[True, True]] x y \<and>
           (\<not> filled [[True, True]] (x - 1) y \<and> e = ((x, y), (x, y + 1)) \<or>
            \<not> filled [[True, True]] x (y + 1) \<and> e = ((x, y + 1), (x + 1, y + 1)) \<or>
            \<not> filled [[True, True]] (x + 1) y \<and> e = ((x + 1, y + 1), (x + 1, y)) \<or>
            \<not> filled [[True, True]] x (y - 1) \<and> e = ((x + 1, y), (x, y))))"
    by blast
  have "((0, 0), (0, 1)) \<in> set es"
    unfolding m by (rule exI [of _ 0], rule exI [of _ 0]) (simp add: filled_def)
  moreover have "((2, 1), (2, 0)) \<in> set es"
    unfolding m by (rule exI [of _ 1], rule exI [of _ 0]) (simp add: filled_def)
  ultimately show ?thesis using r es by blast
qed

text \<open>
  C7. On a rectangular grid every edge returned by \<open>generateEdges\<close> is followed by a
  different edge of the same list that starts at its end point.
\<close>

theorem generateEdges_closed:
  assumes "rectangular g"
  shows "\<exists>es. generateEdges g = Inr es \<and>
     (\<forall>e\<in>set es. \<exists>e'\<in>set es. e' \<noteq> e \<and> fst e' = snd e)"
  using generateEdges_rect [OF assms] gridEdges_successor [OF assms] by blast

theorem generateEdges_closed_witness:
  "rectangular [[True]] \<and> (\<exists>e'\<in>set [((0, 0), (0, 1)), ((0, 1), (1, 1)), ((1, 1), (1, 0)), ((1, 0), (0, 0))].
      e' \<noteq> ((0, 0), (0, 1)) \<and> fst e' = snd ((0::int, 0::int), (0::int, 1::int)))"
proof -
  have r: "rectangular [[True]]" by (simp add: rectangular_def)
  have g: "generateEdges [[True]] = Inr [((0, 0), (0, 1)), ((0, 1), (1, 1)), ((1, 1), (1, 0)), ((1, 0), (0, 0))]"
    by code_simp
  show ?thesis using generateEdges_closed [OF r] r unfolding g by simp
qed

subsection \<open>The loops of mergeContours: steps and termination\<close>

lemma filter_hd_in: "filter P xs = y # ys \<Longrightarrow> y \<in> set xs \<and> P y"
proof -
  assume a: "filter P xs = y # ys"
  have "y \<in> set (filter P xs)" unfolding a by simp
  then show ?thesis by simp
qed

lemma length_remove1_less: "x \<in> set xs \<Longrightarrow> length (remove1 x xs) < length xs"
  using length_pos_if_in_set [of x xs] by (simp add: length_remove1)

lemma followChain_stop:
  "snd current = start0 \<Longrightarrow> followChain start0 edgeList current contour = Some (Inr (edgeList, contour))"
  by (subst followChain.simps) simp

lemma followChain_none:
  "snd current \<noteq> start0 \<Longrightarrow> filter (\<lambda>edge. fst edge = snd current) edgeList = [] \<Longrightarrow>
   followChain start0 edgeList current contour = Some (Inl IndexError)"
  by (subst followChain.simps) simp

lemma followChain_step:
  "snd current \<noteq> start0 \<Longrightarrow> filter (\<lambda>edge. fst edge = snd current) edgeList = next # more \<Longrightarrow>
   followChain start0 edgeList current contour =
     followChain start0 (remove1 next edgeList) next
       (if fst (snd next) = fst (fst current) \<or> snd (snd next) = snd (fst current)
        then contour[length contour - 1 := snd next]
        else contour @ [snd next])"
  by (subst followChain.simps) simp

lemma followChain_returns:
  "\<exists>r. followChain start0 edgeList current contour = Some r \<and>
       (\<forall>edgeList' contour'. r = Inr (edgeList', contour') \<longrightarrow> length edgeList' \<le> length edgeList)"
proof (induction edgeList arbitrary: current contour rule: measure_induct_rule [where f = length])
  case (less edgeList)
  show ?case
  proof (cases "snd current = start0")
    case True
    then show ?thesis by (simp add: followChain_stop)
  next
    case False
    show ?thesis
    proof (cases "filter (\<lambda>edge. fst edge = snd current) edgeList")
      case Nil
      with False show ?thesis by (simp add: followChain_none)
    next
      case (Cons nxt more)
      then have "nxt \<in> set edgeList" using filter_hd_in by fast
      then have l: "length (remove1 nxt edgeList) < length edgeList" by (rule length_remove1_less)
      from less.IH [OF l] l show ?thesis
        unfolding followChain_step [OF False Cons] by (meson less_imp_le_nat order_trans)
    qed
  qed
qed

lemma stitch_stop: "length edgeList \<le> 1 \<Longrightarrow> stitch edgeList contours = Some (Inr contours)"
  by (subst stitch.simps) simp

lemma stitch_step:
  "1 < length edgeList \<Longrightarrow>
   stitch edgeList contours =
     Option.bind (followChain (fst (edgeList ! 0)) (remove1 (edgeList ! 0) edgeList) (edgeList ! 0)
                    [fst (edgeList ! 0), snd (edgeList ! 0)])
       (\<lambda>r. case r of
          Inl e \<Rightarrow> Some (Inl e)
        | Inr (edgeList', contour) \<Rightarrow> stitch edgeList' (contours @ [butlast contour]))"
  by (subst stitch.simps) (simp add: Let_def)

lemma stitch_returns: "\<exists>r. stitch edgeList contours = Some r"
proof (induction edgeList arbitrary: contours rule: measure_induct_rule [where f = length])
  case (less edgeList)
  show ?case
  proof (cases "1 < length edgeList")
    case False
    then show ?thesis by (simp add: stitch_stop)
  next
    case True
    then have "0 < length edgeList" by (rule less_trans [OF zero_less_one])
    then have "edgeList ! 0 \<in> set edgeList" by (rule nth_mem)
    then have l: "length (remove1 (edgeList ! 0) edgeList) < length edgeList"
      by (rule length_remove1_less)
    obtain r where r: "followChain (fst (edgeList ! 0)) (remove1 (edgeList ! 0) edgeList) (edgeList ! 0)
                    [fst (edgeList ! 0), snd (edgeList ! 0)] = Some r"
      and b: "\<And>edgeList' contour'. r = Inr (edgeList', contour') \<Longrightarrow>
                 length edgeList' \<le> length (remove1 (edgeList ! 0) edgeList)"
      using followChain_returns by blast
    show ?thesis
    proof (cases r)
      case (Inl e)
      then show ?thesis unfolding stitch_step [OF True] r by simp
    next
      case (Inr p)
      obtain edgeList' contour' where p: "p = (edgeList', contour')" by (cases p)
      from b [of edgeList' contour'] Inr p l have "length edgeList' < length edgeList" by simp
      from less.IH [OF this] show ?thesis unfolding stitch_step [OF True] r Inr p by simp
    qed
  qed
qed

lemma mergeContours_returns: "\<exists>r. mergeContours edges = Some r"
  unfolding mergeContours_def by (rule stitch_returns)

lemma length_concat_map_le:
  assumes "\<And>n. n \<in> set ns \<Longrightarrow> length (f n) \<le> k"
  shows "length (concat (map f ns)) \<le> k * length ns"
  using assms
proof (induction ns)
  case Nil
  then show ?case by simp
next
  case (Cons n ns)
  have "length (f n) \<le> k" using Cons.prems by simp
  moreover have "length (concat (map f ns)) \<le> k * length ns"
    by (rule Cons.IH) (simp add: Cons.prems)
  ultimately show ?case by simp
qed

lemma length_sideEdges: "length (sideEdges g x y) \<le> 4"
  by (simp add: sideEdges_def)

lemma length_gridEdges: "length (gridEdges g) \<le> 4 * (length (g ! 0) * length g)"
proof -
  have "length (concat (map (\<lambda>x. sideEdges g (int x) (int y)) [0..<length (g ! 0)]))
          \<le> 4 * length (g ! 0)" for y
    using length_concat_map_le [of "[0..<length (g ! 0)]" "\<lambda>x. sideEdges g (int x) (int y)" 4]
    by (simp add: length_sideEdges)
  then have "length (gridEdges g) \<le> (4 * length (g ! 0)) * length [0..<length g]"
    unfolding gridEdges_def by (intro length_concat_map_le)
  then show ?thesis by simp
qed

lemma unpackChar_row_length: "row \<in> set (unpackChar rows) \<Longrightarrow> length row = 8"
  by (auto simp add: unpackChar_def)

lemma rectangular_unpackChar:
  assumes "rows \<noteq> []"
  shows "rectangular (unpackChar rows)"
proof -
  have n: "unpackChar rows \<noteq> []" using assms by (simp add: unpackChar_def)
  then have "unpackChar rows ! 0 \<in> set (unpackChar rows)" by simp
  then have "length (unpackChar rows ! 0) = 8" by (rule unpackChar_row_length)
  with n show ?thesis unfolding rectangular_def by (simp add: unpackChar_row_length)
qed

lemma generateEdges_unpackChar:
  assumes "rows \<noteq> []"
  shows "generateEdges (unpackChar rows) = Inr (gridEdges (unpackChar rows))"
  by (rule generateEdges_rect [OF rectangular_unpackChar [OF assms]])

lemma length_generateEdges_unpackChar:
  assumes "generateEdges (unpackChar rows) = Inr es"
  shows "length es \<le> 4 * (8 * length rows)"
proof (cases "rows = []")
  case True
  then show ?thesis using assms by (simp add: unpackChar_def generateEdges_def getitem_def)
next
  case False
  have n: "unpackChar rows \<noteq> []" using False by (simp add: unpackChar_def)
  then have "unpackChar rows ! 0 \<in> set (unpackChar rows)" by simp
  then have w: "length (unpackChar rows ! 0) = 8" by (rule unpackChar_row_length)
  have "es = gridEdges (unpackChar rows)"
    using assms generateEdges_unpackChar [OF False] by simp
  then show ?thesis
    using length_gridEdges [of "unpackChar rows"] unfolding w by (simp add: unpackChar_length)
qed

text \<open>
  C8. \<open>vectorizeGlyph\<close> returns on every input, whatever the rows, the scale and the
  descent: both loops of \<open>mergeContours\<close> take an edge out of the pool in every
  iteration (lemmas \<open>followChain_returns\<close> and \<open>stitch_returns\<close> are by induction on
  the length of the pool). The pool holds at most 4 edges for each of the 8 cells of
  each row, so at most 256 edges for 8 rows.
\<close>

theorem vectorizeGlyph_terminates:
  "(\<exists>r. vectorizeGlyph glyphData pixelSize descent = Some r) \<and>
   (\<forall>rows es. generateEdges (unpackChar rows) = Inr es \<longrightarrow> length es \<le> 4 * (8 * length rows))"
proof
  show "\<exists>r. vectorizeGlyph glyphData pixelSize descent = Some r"
    unfolding vectorizeGlyph_def
    by (simp add: mergeContours_returns split: option.split sum.split)
  show "\<forall>rows es. generateEdges (unpackChar rows) = Inr es \<longrightarrow> length es \<le> 4 * (8 * length rows)"
    using length_generateEdges_unpackChar by blast
qed

theorem vectorizeGlyph_terminates_witness:
  "generateEdges (unpackChar [128]) = Inr [((0, 0), (0, 1)), ((0, 1), (1, 1)), ((1, 1), (1, 0)), ((1, 0), (0, 0))] \<and>
   length [((0::int, 0::int), (0::int, 1::int)), ((0, 1), (1, 1)), ((1, 1), (1, 0)), ((1, 0), (0, 0))] \<le> 4 * (8 * length [128::int]) \<and>
   (\<exists>r. vectorizeGlyph (Some [128]) 64 1 = Some r)"
proof -
  have g: "generateEdges (unpackChar [128]) = Inr [((0, 0), (0, 1)), ((0, 1), (1, 1)), ((1, 1), (1, 0)), ((1, 0), (0, 0))]"
    by code_simp
  show ?thesis
    using vectorizeGlyph_terminates [of "Some [128]" 64 1] g by simp
qed

subsection \<open>A single leftover edge\<close>

text \<open>
  C2 fails on the code. The edges of a unit square together with one stray edge are
  stitched into the square; the stray edge is left in the pool when the outer loop
  stops, and the result is an ordinary contour list, not an error.
\<close>

theorem mergeContours_leftover_counterexample:
  "mergeContours [((0, 0), (0, 1)), ((0, 1), (1, 1)), ((1, 1), (1, 0)), ((1, 0), (0, 0)), ((5, 5), (5, 6))]
     = Some (Inr [[(0, 0), (0, 1), (1, 1), (1, 0)]])"
  by code_simp

text \<open>
  C2, amended. When the outer loop of \<open>mergeContours\<close> is left with exactly one edge in
  its pool it stops and returns the contours completed so far as a normal result; the
  leftover edge is dropped and no error is reported. In particular \<open>mergeContours\<close> of
  a single edge is the empty contour list.
\<close>

theorem stitch_leftover_dropped:
  "stitch [e] contours = Some (Inr contours) \<and> mergeContours [e] = Some (Inr [])"
  by (simp add: stitch_stop mergeContours_def)

theorem stitch_leftover_dropped_witness:
  "stitch [((5, 5), (5, 6))] [[(0, 0), (0, 1), (1, 1), (1, 0)]] = Some (Inr [[(0, 0), (0, 1), (1, 1), (1, 0)]])"
  using stitch_leftover_dropped [of "((5, 5), (5, 6))" "[[(0, 0), (0, 1), (1, 1), (1, 0)]]"] by simp

subsection \<open>The continuation step\<close>

text \<open>
  C3 fails on the code. For two cells that touch at the corner \<open>(1, 1)\<close> the chain
  arriving there finds two remaining edges that start at \<open>(1, 1)\<close>; the step takes the
  first one and stitching ends normally with two contours.
\<close>

theorem followChain_ambiguous_counterexample:
  "filter (\<lambda>edge. fst edge = snd ((0, 1), (1, 1)))
      ([((1, 0), (0, 0)), ((1, 1), (1, 0)), ((1, 1), (1, 2)), ((1, 2), (2, 2)), ((2, 1), (1, 1)), ((2, 2), (2, 1))] :: edge list)
     = [((1, 1), (1, 0)), ((1, 1), (1, 2))] \<and>
   followChain (0, 0)
      [((1, 0), (0, 0)), ((1, 1), (1, 0)), ((1, 1), (1, 2)), ((1, 2), (2, 2)), ((2, 1), (1, 1)), ((2, 2), (2, 1))]
      ((0, 1), (1, 1)) [(0, 0), (0, 1), (1, 1)]
     = Some (Inr ([((1, 1), (1, 2)), ((1, 2), (2, 2)), ((2, 1), (1, 1)), ((2, 2), (2, 1))],
                  [(0, 0), (0, 1), (1, 1), (1, 0), (0, 0)])) \<and>
   mergeContours [((0, 0), (0, 1)), ((0, 1), (1, 1)), ((1, 1), (1, 0)), ((1, 0), (0, 0)),
                  ((1, 1), (1, 2)), ((1, 2), (2, 2)), ((2, 2), (2, 1)), ((2, 1), (1, 1))]
     = Some (Inr [[(0, 0), (0, 1), (1, 1), (1, 0)], [(1, 1), (1, 2), (2, 2), (2, 1)]])"
  by code_simp

text \<open>
  C3, amended. At a continuation step (the current edge does not end at the start point
  of the contour): if no remaining edge starts at the end point of the current edge,
  the step raises \<open>IndexError\<close>, and an error of the chain is the result of the
  stitching; if one or more remaining edges start there, the first of them in the order
  of the pool is taken and stitching goes on, the other candidates staying in the pool.
\<close>

theorem followChain_continuation:
  "(snd current \<noteq> start0 \<longrightarrow>
     (filter (\<lambda>edge. fst edge = snd current) edgeList = [] \<longrightarrow>
        followChain start0 edgeList current contour = Some (Inl IndexError)) \<and>
     (\<forall>next more. filter (\<lambda>edge. fst edge = snd current) edgeList = next # more \<longrightarrow>
        followChain start0 edgeList current contour =
          followChain start0 (remove1 next edgeList) next
            (if fst (snd next) = fst (fst current) \<or> snd (snd next) = snd (fst current)
             then contour[length contour - 1 := snd next]
             else contour @ [snd next]))) \<and>
   (1 < length pool \<and>
    followChain (fst (pool ! 0)) (remove1 (pool ! 0) pool) (pool ! 0) [fst (pool ! 0), snd (pool ! 0)]
      = Some (Inl e) \<longrightarrow> stitch pool contours = Some (Inl e))"
  using followChain_none followChain_step stitch_step [of pool contours] by auto

theorem followChain_continuation_witness:
  "followChain (0, 0) [((5, 5), (5, 6))] ((0, 0), (0, 1)) [(0, 0), (0, 1)] = Some (Inl IndexError) \<and>
   stitch [((0, 0), (0, 1)), ((5, 5), (5, 6))] [] = Some (Inl IndexError) \<and>
   followChain (0, 0) [((0, 1), (1, 1)), ((0, 1), (0, 0))] ((0, 0), (0, 1)) [(0, 0), (0, 1)]
     = followChain (0, 0) [((0, 1), (0, 0))] ((0, 1), (1, 1)) [(0, 0), (0, 1), (1, 1)]"
  using followChain_continuation [of "((0, 0), (0, 1))" "(0, 0)" "[((5, 5), (5, 6))]" "[(0, 0), (0, 1)]"
      "[((0, 0), (0, 1)), ((5, 5), (5, 6))]" IndexError "[]"]
    followChain_continuation [of "((0, 0), (0, 1))" "(0, 0)" "[((0, 1), (1, 1)), ((0, 1), (0, 0))]" "[(0, 0), (0, 1)]"]
  by simp

subsection \<open>mergeContours commutes with coordinatewise maps\<close>

lemma coordwise_fst: "coordwise h \<Longrightarrow> (fst (h p) = fst (h q)) = (fst p = fst q)"
  unfolding coordwise_def by blast

lemma coordwise_snd: "coordwise h \<Longrightarrow> (snd (h p) = snd (h q)) = (snd p = snd q)"
  unfolding coordwise_def by blast

lemma coordwise_le: "coordwise h \<Longrightarrow> (h p \<le> h q) = (p \<le> q)"
  unfolding coordwise_def by blast

lemma coordwise_eq: 
  assumes "coordwise h" 
  shows "(h p = h q) = (p = q)"
  using coordwise_fst [OF assms, of p q] coordwise_snd [OF assms, of p q]
  by (auto simp add: prod_eq_iff)

lemma mapEdge_eq: 
  assumes "coordwise h" 
  shows "(mapEdge h e = mapEdge h e') = (e = e')"
  unfolding mapEdge_def using coordwise_eq [OF assms] by (auto simp add: prod_eq_iff)

lemma mapEdge_le:
  assumes "coordwise h"
  shows "(mapEdge h e \<le> mapEdge h e') = (e \<le> e')"
proof -
  have l: "(h p < h q) = (p < q)" for p q
    using coordwise_le [OF assms, of p q] coordwise_eq [OF assms, of p q]
    by (simp add: less_le)
  show ?thesis
    unfolding mapEdge_def less_eq_prod_def [of "(h (fst e), h (snd e))"] less_eq_prod_def [of e]
    by (simp add: l coordwise_le [OF assms])
qed

lemma mapEdge_sel [simp]: "fst (mapEdge h e) = h (fst e)" "snd (mapEdge h e) = h (snd e)"
  by (simp_all add: mapEdge_def)

lemma sort_map_mono:
  assumes "\<And>x y. (f x \<le> f y) = (x \<le> y)"
  shows "sort (map f xs) = map f (sort xs)"
proof (rule properties_for_sort)
  show "mset (map f (sort xs)) = mset (map f xs)" by simp
  have "sorted_wrt (\<lambda>x y. f x \<le> f y) (sort xs)"
    unfolding assms using sorted_sort [of xs] by simp
  then show "sorted (map f (sort xs))" by (simp add: sorted_wrt_map)
qed

lemma sort_mapEdge: "coordwise h \<Longrightarrow> sort (map (mapEdge h) es) = map (mapEdge h) (sort es)"
  by (rule sort_map_mono) (rule mapEdge_le)

lemma remove1_map_inj:
  assumes "\<And>x y. (f x = f y) = (x = y)"
  shows "remove1 (f x) (map f xs) = map f (remove1 x xs)"
  by (induction xs) (simp_all add: assms)

lemma filter_map_start:
  assumes "coordwise h"
  shows "filter (\<lambda>edge. fst edge = h p) (map (mapEdge h) pool) = map (mapEdge h) (filter (\<lambda>edge. fst edge = p) pool)"
  by (induction pool) (simp_all add: coordwise_eq [OF assms])

lemma followChain_map:
  assumes h: "coordwise h"
  shows "followChain (h start0) (map (mapEdge h) pool) (mapEdge h current) (map h contour)
       = map_option (mapChain h) (followChain start0 pool current contour)"
proof (induction pool arbitrary: current contour rule: measure_induct_rule [where f = length])
  case (less pool)
  show ?case
  proof (cases "snd current = start0")
    case True
    then show ?thesis by (simp add: followChain_stop mapChain_def)
  next
    case False
    then have F: "snd (mapEdge h current) \<noteq> h start0" by (simp add: coordwise_eq [OF h])
    show ?thesis
    proof (cases "filter (\<lambda>edge. fst edge = snd current) pool")
      case Nil
      then have "filter (\<lambda>edge. fst edge = snd (mapEdge h current)) (map (mapEdge h) pool) = []"
        by (simp add: filter_map_start [OF h])
      from followChain_none [OF F this] followChain_none [OF False Nil]
      show ?thesis by (simp add: mapChain_def)
    next
      case (Cons nxt more)
      then have C: "filter (\<lambda>edge. fst edge = snd (mapEdge h current)) (map (mapEdge h) pool)
           = mapEdge h nxt # map (mapEdge h) more"
        by (simp add: filter_map_start [OF h])
      from Cons have "nxt \<in> set pool" using filter_hd_in by fast
      then have l: "length (remove1 nxt pool) < length pool" by (rule length_remove1_less)
      define c' where "c' = (if fst (snd nxt) = fst (fst current) \<or> snd (snd nxt) = snd (fst current)
             then contour[length contour - 1 := snd nxt] else contour @ [snd nxt])"
      have step1: "followChain (h start0) (map (mapEdge h) pool) (mapEdge h current) (map h contour)
          = followChain (h start0) (map (mapEdge h) (remove1 nxt pool)) (mapEdge h nxt) (map h c')"
        unfolding followChain_step [OF F C] remove1_map_inj [of "mapEdge h", OF mapEdge_eq [OF h]]
        by (simp add: c'_def coordwise_fst [OF h] coordwise_snd [OF h] map_update)
      have step2: "followChain start0 pool current contour = followChain start0 (remove1 nxt pool) nxt c'"
        unfolding followChain_step [OF False Cons] c'_def ..
      show ?thesis unfolding step1 step2 by (rule less.IH [OF l])
    qed
  qed
qed

lemma stitch_map:
  assumes h: "coordwise h"
  shows "stitch (map (mapEdge h) pool) (map (map h) contours)
       = map_option (mapResult h) (stitch pool contours)"
proof (induction pool arbitrary: contours rule: measure_induct_rule [where f = length])
  case (less pool)
  show ?case
  proof (cases "1 < length pool")
    case False
    then show ?thesis by (simp add: stitch_stop mapResult_def)
  next
    case True
    then have T: "1 < length (map (mapEdge h) pool)" by simp
    from True have p0: "0 < length pool" by (rule less_trans [OF zero_less_one])
    then have "pool ! 0 \<in> set pool" by (rule nth_mem)
    then have l: "length (remove1 (pool ! 0) pool) < length pool"
      by (rule length_remove1_less)
    have n0: "map (mapEdge h) pool ! 0 = mapEdge h (pool ! 0)" using p0 by (rule nth_map)
    obtain r where r: "followChain (fst (pool ! 0)) (remove1 (pool ! 0) pool) (pool ! 0)
                    [fst (pool ! 0), snd (pool ! 0)] = Some r"
      and b: "\<And>pool' contour'. r = Inr (pool', contour') \<Longrightarrow>
                 length pool' \<le> length (remove1 (pool ! 0) pool)"
      using followChain_returns by blast
    have m: "followChain (h (fst (pool ! 0))) (map (mapEdge h) (remove1 (pool ! 0) pool)) (mapEdge h (pool ! 0))
                    [h (fst (pool ! 0)), h (snd (pool ! 0))] = Some (mapChain h r)"
      using followChain_map [OF h, of "fst (pool ! 0)" "remove1 (pool ! 0) pool" "pool ! 0" "[fst (pool ! 0), snd (pool ! 0)]"]
      unfolding r by simp
    show ?thesis
    proof (cases r)
      case (Inl e)
      then show ?thesis
        unfolding stitch_step [OF True] stitch_step [OF T] n0 mapEdge_sel
          remove1_map_inj [of "mapEdge h", OF mapEdge_eq [OF h]] r m
        by (simp add: mapChain_def mapResult_def)
    next
      case (Inr pc)
      obtain pool' contour' where pc: "pc = (pool', contour')" by (cases pc)
      from b [of pool' contour'] Inr pc l have "length pool' < length pool" by simp
      from less.IH [OF this, of "contours @ [butlast contour']"] show ?thesis
        unfolding stitch_step [OF True] stitch_step [OF T] n0 mapEdge_sel
          remove1_map_inj [of "mapEdge h", OF mapEdge_eq [OF h]] r m Inr pc
        by (simp add: mapChain_def map_butlast)
    qed
  qed
qed

lemma mergeContours_map:
  assumes "coordwise h"
  shows "mergeContours (map (mapEdge h) es) = map_option (mapResult h) (mergeContours es)"
  unfolding mergeContours_def sort_mapEdge [OF assms]
  using stitch_map [OF assms, of "sort es" "[]"] by simp

lemma coordwise_scalePoint: 
  assumes "0 < s"
  shows "coordwise (scalePoint s d)"
  unfolding coordwise_def scalePoint_def less_eq_prod_def using assms
  by (simp add: mult_less_cancel_right mult_le_cancel_right)

lemma coordwise_translatePoint: "coordwise (translatePoint a b)"
  unfolding coordwise_def translatePoint_def less_eq_prod_def by simp

lemma scaleEdges_mapEdge: "scaleEdges es s d = map (mapEdge (scalePoint s d)) es"
  by (simp add: scaleEdges_def mapEdge_def)

subsection \<open>Empty rows below and above a bitmap\<close>

lemma concat_map_empty: "(\<And>n. n \<in> set ns \<Longrightarrow> f n = []) \<Longrightarrow> concat (map f ns) = []"
  by (induction ns) simp_all

lemma filled_padded:
  assumes "length (g ! 0) = w" "g \<noteq> []"
  shows "filled (replicate b (replicate w False) @ g @ replicate a (replicate w False)) x y
       = filled g x (y - int b)"
proof -
  let ?z = "replicate w False"
  let ?G = "replicate b ?z @ g @ replicate a ?z"
  consider "y < 0" | "0 \<le> y" "y < int b" | "int b \<le> y" "y < int b + int (length g)"
    | "int b + int (length g) \<le> y" by linarith
  then show ?thesis
  proof cases
    case 1
    then show ?thesis by (simp add: filled_def)
  next
    case 2
    then have "nat y < b" by simp
    then have "?G ! nat y = ?z" by (simp add: nth_append)
    then have "\<not> filled ?G x y" unfolding filled_def by auto
    moreover have "\<not> filled g x (y - int b)" using 2 by (simp add: filled_def)
    ultimately show ?thesis by simp
  next
    case 3
    then have n: "nat y = b + nat (y - int b)" "nat (y - int b) < length g" by simp_all
    have "?G ! nat y = g ! nat (y - int b)"
      unfolding n(1) using n(2) by (simp add: nth_append)
    then show ?thesis using 3 n(2) unfolding filled_def by auto
  next
    case 4
    then have n: "\<not> nat (y - int b) < length g" by simp
    then have r: "\<not> filled g x (y - int b)" by (simp add: filled_def)
    have "\<not> filled ?G x y"
    proof (cases "nat y < length ?G")
      case False
      then show ?thesis unfolding filled_def by blast
    next
      case True
      obtain j where j: "nat y = b + length g + j" "j < a"
        using 4 True by (intro that [of "nat y - (b + length g)"]) simp_all
      have "?G ! nat y = ?z" unfolding j(1) using j(2) by (simp add: nth_append)
      then show ?thesis unfolding filled_def by auto
    qed
    with r show ?thesis by simp
  qed
qed

lemma width_padded:
  assumes "length (g ! 0) = w" "g \<noteq> []"
  shows "length ((replicate b (replicate w False) @ g @ replicate a (replicate w False)) ! 0) = w"
  using assms by (cases b) (simp_all add: nth_append)

lemma sideEdges_translate:
  assumes "\<And>x y. filled G x (y + b) = filled g x y"
  shows "sideEdges G x (y + b) = map (mapEdge (translatePoint 0 b)) (sideEdges g x y)"
proof -
  have u: "y + b + 1 = (y + 1) + b" and d: "y + b - 1 = (y - 1) + b" by simp_all
  have e: "leftEdge x (y + b) = mapEdge (translatePoint 0 b) (leftEdge x y)"
    "topEdge x (y + b) = mapEdge (translatePoint 0 b) (topEdge x y)"
    "rightEdge x (y + b) = mapEdge (translatePoint 0 b) (rightEdge x y)"
    "bottomEdge x (y + b) = mapEdge (translatePoint 0 b) (bottomEdge x y)"
    by (simp_all add: mapEdge_def translatePoint_def leftEdge_def topEdge_def rightEdge_def
        bottomEdge_def)
  show ?thesis
    unfolding sideEdges_def u d assms e
    by (cases "filled g x y"; cases "filled g (x - 1) y"; cases "filled g x (y + 1)";
        cases "filled g (x + 1) y"; cases "filled g x (y - 1)") simp_all
qed

lemma gridEdges_padded:
  assumes "length (g ! 0) = w" "g \<noteq> []"
  shows "gridEdges (replicate b (replicate w False) @ g @ replicate a (replicate w False))
       = map (mapEdge (translatePoint 0 (int b))) (gridEdges g)"
proof -
  let ?z = "replicate w False"
  let ?G = "replicate b ?z @ g @ replicate a ?z"
  let ?T = "mapEdge (translatePoint 0 (int b))"
  let ?row = "\<lambda>G y. concat (map (\<lambda>x. sideEdges G (int x) (int y)) [0..<w])"
  have fG: "filled ?G x y = filled g x (y - int b)" for x y
    by (rule filled_padded [OF assms])
  have s: "sideEdges ?G x y = map ?T (sideEdges g x (y - int b))" for x y
    using sideEdges_translate [of ?G "int b" g x "y - int b"] by (simp add: fG)
  have low: "?row ?G y = []" if "y < b" for y
  proof (rule concat_map_empty)
    fix x
    have "\<not> filled g (int x) (int y - int b)" using that by (simp add: filled_def)
    then show "sideEdges ?G (int x) (int y) = []" unfolding s by (simp add: sideEdges_def)
  qed
  have high: "?row ?G y = []" if "b + length g \<le> y" for y
  proof (rule concat_map_empty)
    fix x
    have "nat (int y - int b) = y - b" by simp
    moreover have "\<not> y - b < length g" using that by simp
    ultimately have "\<not> filled g (int x) (int y - int b)" by (simp add: filled_def)
    then show "sideEdges ?G (int x) (int y) = []" unfolding s by (simp add: sideEdges_def)
  qed
  have mid: "?row ?G (b + y) = map ?T (?row g y)" for y
    unfolding s by (simp add: map_concat o_def)
  have split: "[0..<length ?G] = [0..<b] @ map (\<lambda>y. b + y) [0..<length g] @ [b + length g..<b + length g + a]"
  proof -
    have "[0..<length ?G] = [0..<b + (length g + a)]" by (simp add: add.assoc)
    also have "\<dots> = [0..<b] @ [b..<b + (length g + a)]" by (simp add: upt_add_eq_append [of 0 b])
    also have "[b..<b + (length g + a)] = [b..<b + length g] @ [b + length g..<b + length g + a]"
      using upt_add_eq_append [of b "b + length g" a] by (simp add: add.assoc)
    also have "[b..<b + length g] = map (\<lambda>y. b + y) [0..<length g]"
      by (simp add: map_add_upt add.commute)
    finally show ?thesis by simp
  qed
  have "gridEdges ?G = concat (map (?row ?G) [0..<length ?G])"
    unfolding gridEdges_def width_padded [OF assms] ..
  also have "\<dots> = concat (map (?row ?G) [0..<b]) @ concat (map (\<lambda>y. ?row ?G (b + y)) [0..<length g])
       @ concat (map (?row ?G) [b + length g..<b + length g + a])"
    unfolding split by (simp add: o_def)
  also have "concat (map (?row ?G) [0..<b]) = []"
    by (rule concat_map_empty) (simp add: low)
  also have "concat (map (?row ?G) [b + length g..<b + length g + a]) = []"
    by (rule concat_map_empty) (simp add: high)
  also have "concat (map (\<lambda>y. ?row ?G (b + y)) [0..<length g]) = map ?T (gridEdges g)"
    unfolding mid gridEdges_def assms(1) by (simp add: map_concat o_def)
  finally show ?thesis by simp
qed

lemma unpackChar_zero_row: "map (\<lambda>b. (drop_bit b (0::int)) AND 1 = 1) (rev [0..<8]) = replicate 8 False"
  by code_simp

lemma const_row_8: "map (\<lambda>b. False) (rev [0..<8]) = replicate 8 False"
  by code_simp

lemma unpackChar_padded:
  "unpackChar (replicate a 0 @ core @ replicate b 0)
     = replicate b (replicate 8 False) @ unpackChar core @ replicate a (replicate 8 False)"
  unfolding unpackChar_def by (simp add: const_row_8)

subsection \<open>The full grid and the ring\<close>

lemma mapResult_comp: "mapResult h (mapResult h' r) = mapResult (\<lambda>p. h (h' p)) r"
  by (cases r) (simp_all add: mapResult_def o_def)

lemma vectorizeGlyph_scaled:
  assumes "0 < s" "rows \<noteq> []"
  shows "vectorizeGlyph (Some rows) s d
       = map_option (mapResult (scalePoint s d)) (mergeContours (gridEdges (unpackChar rows)))"
  unfolding vectorizeGlyph_def
  using assms(2) generateEdges_unpackChar [OF assms(2)]
    mergeContours_map [OF coordwise_scalePoint [OF assms(1)], of d "gridEdges (unpackChar rows)"]
  by (simp add: scaleEdges_mapEdge)

lemma vectorizeGlyph_padded:
  assumes "0 < s" "core \<noteq> []"
  shows "vectorizeGlyph (Some (replicate a 0 @ core @ replicate b 0)) s d
       = map_option (mapResult (\<lambda>p. scalePoint s d (translatePoint 0 (int b) p)))
           (mergeContours (gridEdges (unpackChar core)))"
proof -
  have n: "unpackChar core \<noteq> []" using assms(2) by (simp add: unpackChar_def)
  then have "unpackChar core ! 0 \<in> set (unpackChar core)" by simp
  then have w: "length (unpackChar core ! 0) = 8" by (rule unpackChar_row_length)
  have r: "replicate a 0 @ core @ replicate b 0 \<noteq> []" using assms(2) by simp
  show ?thesis
    unfolding vectorizeGlyph_scaled [OF assms(1) r] unpackChar_padded gridEdges_padded [OF w n]
      mergeContours_map [OF coordwise_translatePoint]
    by (simp add: option.map_comp o_def mapResult_comp)
qed

lemma closedSegments_map: "closedSegments (map h c) = map (\<lambda>seg. (h (fst seg), h (snd seg))) (closedSegments c)"
  unfolding closedSegments_def rotate1_map zip_map_map by (simp add: case_prod_beta)

lemma closedRectilinear_map:
  assumes "coordwise h"
  shows "closedRectilinear (map h c) = closedRectilinear c"
  unfolding closedRectilinear_def closedSegments_map
  by (simp add: coordwise_fst [OF assms] coordwise_snd [OF assms] coordwise_eq [OF assms])

lemma full_merge: "mergeContours (gridEdges (unpackChar [255, 255, 255, 255, 255, 255, 255, 255]))
   = Some (Inr [[(0, 0), (0, 8), (8, 8), (8, 0)]])"
  by code_simp

text \<open>
  C4. For every positive scale and every descent, the fully filled bitmap of eight rows
  \<open>0xFF\<close> is vectorized into exactly one contour, and this contour has exactly four
  vertices, all different: the corners of the scaled 8 by 8 square.
\<close>

theorem vectorizeGlyph_full_grid:
  assumes "0 < pixelSize"
  shows "\<exists>c. vectorizeGlyph (Some [255, 255, 255, 255, 255, 255, 255, 255]) pixelSize descent = Some (Inr [c]) \<and>
     length c = 4 \<and> distinct c \<and>
     c = [(0, (0 - descent) * pixelSize), (0, (8 - descent) * pixelSize),
          (8 * pixelSize, (8 - descent) * pixelSize), (8 * pixelSize, (0 - descent) * pixelSize)]"
proof (intro exI conjI)
  let ?h = "scalePoint pixelSize descent"
  let ?c = "[(0, (0 - descent) * pixelSize), (0, (8 - descent) * pixelSize),
          (8 * pixelSize, (8 - descent) * pixelSize), (8 * pixelSize, (0 - descent) * pixelSize)]"
  have n: "[255, 255, 255, 255, 255, 255, 255, 255] \<noteq> ([] :: int list)" by simp
  have c: "?c = map ?h [(0, 0), (0, 8), (8, 8), (8, 0)]"
    by (simp add: scalePoint_def)
  show "vectorizeGlyph (Some [255, 255, 255, 255, 255, 255, 255, 255]) pixelSize descent = Some (Inr [?c])"
    unfolding vectorizeGlyph_scaled [OF assms n] full_merge c by (simp add: mapResult_def)
  show "length ?c = 4" by simp
  have i: "?h p = ?h q \<longleftrightarrow> p = q" for p q
    by (rule coordwise_eq [OF coordwise_scalePoint [OF assms]])
  show "distinct ?c" unfolding c by (simp add: i)
  show "?c = ?c" ..
qed

theorem vectorizeGlyph_full_grid_witness:
  "(0::int) < 64 \<and> vectorizeGlyph (Some [255, 255, 255, 255, 255, 255, 255, 255]) 64 1
     = Some (Inr [[(0, - 64), (0, 448), (512, 448), (512, - 64)]])"
  using vectorizeGlyph_full_grid [of 64 1] by simp

lemma ring_core:
  assumes "k \<le> 5"
  shows "mergeContours (gridEdges (unpackChar [7 * 2 ^ k, 5 * 2 ^ k, 7 * 2 ^ k]))
     = Some (Inr [[(5 - int k, 0), (5 - int k, 3), (8 - int k, 3), (8 - int k, 0)],
                  [(6 - int k, 1), (7 - int k, 1), (7 - int k, 2), (6 - int k, 2)]])"
proof -
  consider "k = 0" | "k = 1" | "k = 2" | "k = 3" | "k = 4" | "k = 5" using assms by linarith
  then show ?thesis
  proof cases
    case 1 show ?thesis unfolding 1 by code_simp
  next
    case 2 show ?thesis unfolding 2 by code_simp
  next
    case 3 show ?thesis unfolding 3 by code_simp
  next
    case 4 show ?thesis unfolding 4 by code_simp
  next
    case 5 show ?thesis unfolding 5 by code_simp
  next
    case 6 show ?thesis unfolding 6 by code_simp
  qed
qed

lemma ring_outer_rectilinear:
  "closedRectilinear [(x, y), (x, y + 3), (x + 3, y + 3), (x + 3, y)]"
  by (simp add: closedRectilinear_def closedSegments_def)

lemma ring_inner_rectilinear:
  "closedRectilinear [(x + 1, y + 1), (x + 2, y + 1), (x + 2, y + 2), (x + 1, y + 2)]"
  by (simp add: closedRectilinear_def closedSegments_def)

text \<open>
  C5. A bitmap whose filled cells are a 3 by 3 block without its centre (rows \<open>111\<close>,
  \<open>101\<close>, \<open>111\<close> shifted left by \<open>k \<le> 5\<close> bits, with any number of empty rows above
  and below) is vectorized, for every positive scale, into exactly two contours: the
  outer square and the boundary of the hole. Each is a closed rectilinear polygon, and
  the two have neither a segment nor a vertex in common.
\<close>

theorem vectorizeGlyph_ring:
  assumes "0 < pixelSize" "k \<le> 5"
  shows "\<exists>outer inner.
     vectorizeGlyph (Some (replicate a 0 @ [7 * 2 ^ k, 5 * 2 ^ k, 7 * 2 ^ k] @ replicate b 0)) pixelSize descent
       = Some (Inr [outer, inner]) \<and>
     outer = map (scalePoint pixelSize descent)
       [(5 - int k, int b), (5 - int k, int b + 3), (5 - int k + 3, int b + 3), (5 - int k + 3, int b)] \<and>
     inner = map (scalePoint pixelSize descent)
       [(5 - int k + 1, int b + 1), (5 - int k + 2, int b + 1), (5 - int k + 2, int b + 2), (5 - int k + 1, int b + 2)] \<and>
     closedRectilinear outer \<and> closedRectilinear inner \<and>
     set (closedSegments outer) \<inter> set (closedSegments inner) = {} \<and>
     set outer \<inter> set inner = {}"
proof (intro exI conjI)
  let ?h = "scalePoint pixelSize descent"
  let ?outer = "[(5 - int k, int b), (5 - int k, int b + 3), (5 - int k + 3, int b + 3), (5 - int k + 3, int b)]"
  let ?inner = "[(5 - int k + 1, int b + 1), (5 - int k + 2, int b + 1), (5 - int k + 2, int b + 2), (5 - int k + 1, int b + 2)]"
  have h: "coordwise ?h" by (rule coordwise_scalePoint [OF assms(1)])
  have n: "[7 * 2 ^ k, 5 * 2 ^ k, 7 * 2 ^ k] \<noteq> ([] :: int list)" by simp
  show "vectorizeGlyph (Some (replicate a 0 @ [7 * 2 ^ k, 5 * 2 ^ k, 7 * 2 ^ k] @ replicate b 0)) pixelSize descent
       = Some (Inr [map ?h ?outer, map ?h ?inner])"
    unfolding vectorizeGlyph_padded [OF assms(1) n] ring_core [OF assms(2)]
    by (simp add: mapResult_def translatePoint_def add.commute)
  show "map ?h ?outer = map ?h ?outer" ..
  show "map ?h ?inner = map ?h ?inner" ..
  show "closedRectilinear (map ?h ?outer)"
    unfolding closedRectilinear_map [OF h] by (rule ring_outer_rectilinear)
  show "closedRectilinear (map ?h ?inner)"
    unfolding closedRectilinear_map [OF h] by (rule ring_inner_rectilinear)
  have i: "?h p = ?h q \<longleftrightarrow> p = q" for p q by (rule coordwise_eq [OF h])
  show "set (closedSegments (map ?h ?outer)) \<inter> set (closedSegments (map ?h ?inner)) = {}"
    unfolding closedSegments_map by (simp add: closedSegments_def i)
  show "set (map ?h ?outer) \<inter> set (map ?h ?inner) = {}"
    by (simp add: i)
qed

theorem vectorizeGlyph_ring_witness:
  "vectorizeGlyph (Some [0, 0, 56, 40, 56, 0, 0, 0]) 64 1
     = Some (Inr [[(128, 128), (128, 320), (320, 320), (320, 128)],
                  [(192, 192), (256, 192), (256, 256), (192, 256)]])"
  using vectorizeGlyph_ring [of 64 3 2 3 1] by (simp add: scalePoint_def numeral_eq_Suc)

subsection \<open>Sums over the edges of a grid\<close>

lemma edgeSum_Nil [simp]: "edgeSum f [] = 0"
  by (simp add: edgeSum_def)

lemma edgeSum_Cons [simp]: "edgeSum f (e # es) = f e + edgeSum f es"
  by (simp add: edgeSum_def)

lemma edgeSum_append [simp]: "edgeSum f (es @ es') = edgeSum f es + edgeSum f es'"
  by (simp add: edgeSum_def)

lemma edgeSum_concat_map: "edgeSum f (concat (map h ns)) = sum_list (map (\<lambda>n. edgeSum f (h n)) ns)"
  by (induction ns) simp_all

lemma sum_list_upt_sum: "sum_list (map f [0..<n]) = sum f {0..<n}"
  by (simp add: interv_sum_list_conv_sum_set_nat)

lemma edgeSum_gridEdges:
  "edgeSum f (gridEdges g)
     = (\<Sum>y\<in>{0..<length g}. \<Sum>x\<in>{0..<length (g ! 0)}. edgeSum f (sideEdges g (int x) (int y)))"
  unfolding gridEdges_def edgeSum_concat_map sum_list_upt_sum ..

lemma telescope:
  fixes a :: "int \<Rightarrow> int"
  shows "(\<Sum>x\<in>{0..<n}. a (int x) - a (int x + 1)) = a 0 - a (int n)"
  by (induction n) (simp_all add: add.commute)

lemma edgeSum_sideEdges:
  assumes anti: "\<And>p q. f (q, p) = - f (p, q)"
  shows "edgeSum f (sideEdges g x y) =
     (if filled g x y then around f x y else 0)
     - ((if filled g x y \<and> filled g (x - 1) y then f (leftEdge x y) else 0)
        - (if filled g (x + 1) y \<and> filled g (x + 1 - 1) y then f (leftEdge (x + 1) y) else 0))
     - ((if filled g x y \<and> filled g x (y - 1) then f (bottomEdge x y) else 0)
        - (if filled g x (y + 1) \<and> filled g x (y + 1 - 1) then f (bottomEdge x (y + 1)) else 0))"
proof -
  have r: "f (leftEdge (x + 1) y) = - f (rightEdge x y)"
    unfolding leftEdge_def rightEdge_def by (rule anti)
  have t: "f (bottomEdge x (y + 1)) = - f (topEdge x y)"
    unfolding bottomEdge_def topEdge_def by (rule anti)
  show ?thesis
    unfolding r t sideEdges_def around_def
    by (cases "filled g x y"; cases "filled g (x - 1) y"; cases "filled g x (y + 1)";
        cases "filled g (x + 1) y"; cases "filled g x (y - 1)") simp_all
qed

lemma filled_left_border: "\<not> filled g (-1) y"
  by (simp add: filled_def)

lemma filled_bottom_border: "\<not> filled g x (-1)"
  by (simp add: filled_def)

lemma filled_right_border: "rectangular g \<Longrightarrow> \<not> filled g (int (length (g ! 0))) y"
  using filled_in_range [of g "int (length (g ! 0))" y] by auto

lemma filled_top_border: "\<not> filled g x (int (length g))"
  by (simp add: filled_def)

lemma edgeSum_gridEdges_around:
  assumes rect: "rectangular g" and anti: "\<And>p q. f (q, p) = - f (p, q)"
  shows "edgeSum f (gridEdges g)
     = (\<Sum>y\<in>{0..<length g}. \<Sum>x\<in>{0..<length (g ! 0)}.
          if filled g (int x) (int y) then around f (int x) (int y) else 0)"
proof -
  let ?H = "{0..<length g}" and ?W = "{0..<length (g ! 0)}"
  let ?a = "\<lambda>y x. if filled g x y \<and> filled g (x - 1) y then f (leftEdge x y) else 0"
  let ?b = "\<lambda>x y. if filled g x y \<and> filled g x (y - 1) then f (bottomEdge x y) else 0"
  have A: "(\<Sum>x\<in>?W. ?a y (int x) - ?a y (int x + 1)) = 0" for y
    unfolding telescope [of "?a y"]
    using filled_left_border [of g y] filled_right_border [OF rect, of y] by simp
  have B: "(\<Sum>y\<in>?H. ?b x (int y) - ?b x (int y + 1)) = 0" for x
    unfolding telescope [of "?b x"]
    using filled_bottom_border [of g x] filled_top_border [of g x] by simp
  have "edgeSum f (gridEdges g)
      = (\<Sum>y\<in>?H. \<Sum>x\<in>?W.
          (if filled g (int x) (int y) then around f (int x) (int y) else 0)
          - (?a (int y) (int x) - ?a (int y) (int x + 1))
          - (?b (int x) (int y) - ?b (int x) (int y + 1)))"
    unfolding edgeSum_gridEdges edgeSum_sideEdges [of f, OF anti] ..
  also have "\<dots> = (\<Sum>y\<in>?H. \<Sum>x\<in>?W. if filled g (int x) (int y) then around f (int x) (int y) else 0)
       - (\<Sum>y\<in>?H. \<Sum>x\<in>?W. ?a (int y) (int x) - ?a (int y) (int x + 1))
       - (\<Sum>y\<in>?H. \<Sum>x\<in>?W. ?b (int x) (int y) - ?b (int x) (int y + 1))"
    by (simp only: sum_subtractf)
  also have "(\<Sum>y\<in>?H. \<Sum>x\<in>?W. ?a (int y) (int x) - ?a (int y) (int x + 1)) = 0"
    unfolding A by simp
  also have "(\<Sum>y\<in>?H. \<Sum>x\<in>?W. ?b (int x) (int y) - ?b (int x) (int y + 1))
       = (\<Sum>x\<in>?W. \<Sum>y\<in>?H. ?b (int x) (int y) - ?b (int x) (int y + 1))"
    by (rule sum.swap)
  also have "\<dots> = 0" unfolding B by simp
  finally show ?thesis by simp
qed

subsection \<open>Crossings and flux of the edges of a grid\<close>

lemma crossing_anti: "crossing c (q, p) = - crossing c (p, q)"
  unfolding crossing_def by auto

lemma flux_anti: "flux v (q, p) = - flux v (p, q)"
  unfolding flux_def by simp

lemma crossing_vertical: "fst p = fst q \<Longrightarrow> crossing c (p, q) = 0"
  unfolding crossing_def by simp

lemma crossing_horizontal:
  "snd p = snd q \<Longrightarrow>
   crossing c (p, q) = (if snd p \<le> snd c then (if fst c < fst q then 1 else 0) - (if fst c < fst p then 1 else 0) else 0)"
proof -
  assume e: "snd p = snd q"
  have b1: "below c p q = (snd q \<le> snd c)" if "fst p < fst q"
  proof -
    have "below c p q = (2 * snd q * (fst q - fst p) < (2 * snd c + 1) * (fst q - fst p))"
      unfolding below_def e by simp
    also have "\<dots> = (2 * snd q < 2 * snd c + 1)"
      using that by (simp add: mult_less_cancel_right)
    also have "\<dots> = (snd q \<le> snd c)" by linarith
    finally show ?thesis .
  qed
  have b2: "below c q p = (snd q \<le> snd c)" if "fst q < fst p"
  proof -
    have "below c q p = (2 * snd q * (fst p - fst q) < (2 * snd c + 1) * (fst p - fst q))"
      unfolding below_def e by simp
    also have "\<dots> = (2 * snd q < 2 * snd c + 1)"
      using that by (simp add: mult_less_cancel_right)
    also have "\<dots> = (snd q \<le> snd c)" by linarith
    finally show ?thesis .
  qed
  consider "fst p < fst q" | "fst q < fst p" | "fst p = fst q" by linarith
  then show ?thesis
  proof cases
    case 1
    then show ?thesis unfolding crossing_def using b1 [OF 1] e by auto
  next
    case 2
    then show ?thesis unfolding crossing_def using b2 [OF 2] e by auto
  next
    case 3
    then show ?thesis unfolding crossing_def by auto
  qed
qed

lemma around_crossing: "around (crossing c) x y = (if c = (x, y) then - 1 else 0)"
proof -
  have l: "crossing c (leftEdge x y) = 0" "crossing c (rightEdge x y) = 0"
    unfolding leftEdge_def rightEdge_def by (simp_all add: crossing_vertical)
  have t: "crossing c (topEdge x y) = (if y + 1 \<le> snd c \<and> fst c = x then 1 else 0)"
    unfolding topEdge_def by (subst crossing_horizontal) auto
  have b: "crossing c (bottomEdge x y) = (if y \<le> snd c \<and> fst c = x then - 1 else 0)"
    unfolding bottomEdge_def by (subst crossing_horizontal) auto
  show ?thesis unfolding around_def l t b by (cases c) auto
qed

lemma around_flux: "around (flux v) x y = 0"
  unfolding around_def flux_def leftEdge_def topEdge_def rightEdge_def bottomEdge_def
  by (cases v) auto

lemma edgeSum_flux_gridEdges:
  assumes "rectangular g"
  shows "edgeSum (flux v) (gridEdges g) = 0"
  unfolding edgeSum_gridEdges_around [of g "flux v", OF assms flux_anti] around_flux by simp

lemma edgeSum_crossing_gridEdges:
  assumes "rectangular g"
  shows "edgeSum (crossing c) (gridEdges g) = (if filled g (fst c) (snd c) then - 1 else 0)"
proof (cases "filled g (fst c) (snd c)")
  case False
  have "(if filled g (int x) (int y) then around (crossing c) (int x) (int y) else 0) = 0" for x y
    unfolding around_crossing using False by auto
  then show ?thesis
    unfolding edgeSum_gridEdges_around [of g "crossing c", OF assms crossing_anti] using False by simp
next
  case True
  from filled_in_range [OF assms True]
  have r: "nat (snd c) \<in> {0..<length g}" "nat (fst c) \<in> {0..<length (g ! 0)}"
    and i: "0 \<le> fst c" "0 \<le> snd c" by simp_all
  have "(if filled g (int x) (int y) then around (crossing c) (int x) (int y) else 0)
      = (if y = nat (snd c) then (if x = nat (fst c) then - 1 else 0) else 0)" for x y
    unfolding around_crossing using True i by (cases c) auto
  then have "edgeSum (crossing c) (gridEdges g)
      = (\<Sum>y\<in>{0..<length g}. \<Sum>x\<in>{0..<length (g ! 0)}.
            if y = nat (snd c) then (if x = nat (fst c) then - 1 else 0) else 0)"
    unfolding edgeSum_gridEdges_around [of g "crossing c", OF assms crossing_anti] by simp
  also have "\<dots> = (\<Sum>y\<in>{0..<length g}. if y = nat (snd c) then
            (\<Sum>x\<in>{0..<length (g ! 0)}. if x = nat (fst c) then - 1 else 0) else 0)"
    by (intro sum.cong refl) simp
  also have "\<dots> = - 1"
    using r by (simp add: sum.delta)
  finally show ?thesis using True by simp
qed

lemma axial_gridEdges:
  assumes "rectangular g" "e \<in> set (gridEdges g)"
  shows "axial e"
  using assms by (cases rule: gridEdges_cases) (simp_all add: axial_def)

subsection \<open>Invariants of the stitching\<close>

lemma edgeSum_remove1: "e \<in> set es \<Longrightarrow> edgeSum f (remove1 e es) = edgeSum f es - f e"
  unfolding edgeSum_def using sum_list_map_remove1 [of e es f] by simp

lemma edgeSum_sort: "edgeSum f (sort es) = edgeSum f es"
proof -
  have "sum_mset (image_mset f (mset (sort es))) = sum_mset (image_mset f (mset es))" by simp
  then show ?thesis unfolding edgeSum_def by (metis mset_map sum_mset_sum_list)
qed

lemma flux_positive:
  assumes "0 < edgeSum (flux v) pool"
  shows "filter (\<lambda>edge. fst edge = v) pool \<noteq> []"
  using assms
proof (induction pool)
  case Nil
  then show ?case by simp
next
  case (Cons e pool)
  show ?case
  proof (cases "fst e = v")
    case True
    then show ?thesis by simp
  next
    case False
    then have "flux v e \<le> 0" by (simp add: flux_def)
    with Cons.prems have "0 < edgeSum (flux v) pool" by simp
    from Cons.IH [OF this] show ?thesis by simp
  qed
qed

lemma pathSegments_Cons: "xs \<noteq> [] \<Longrightarrow> pathSegments (a # xs) = (a, hd xs) # pathSegments xs"
  by (cases xs) (simp_all add: pathSegments_def)

lemma pathSegments_single [simp]: "pathSegments [a] = []"
  by (simp add: pathSegments_def)

lemma pathSegments_snoc: "pathSegments (pre @ [P, B]) = pathSegments (pre @ [P]) @ [(P, B)]"
proof (induction pre)
  case Nil
  show ?case by (simp add: pathSegments_def)
next
  case (Cons a pre)
  have "pathSegments (a # (pre @ [P, B])) = (a, hd (pre @ [P, B])) # pathSegments (pre @ [P, B])"
    by (rule pathSegments_Cons) simp
  moreover have "pathSegments (a # (pre @ [P])) = (a, hd (pre @ [P])) # pathSegments (pre @ [P])"
    by (rule pathSegments_Cons) simp
  moreover have "hd (pre @ [P, B]) = hd (pre @ [P])" by (cases pre) simp_all
  ultimately show ?case using Cons.IH by simp
qed

lemma update_last2: "(pre @ [P, B])[length (pre @ [P, B]) - 1 := C] = pre @ [P, C]"
  by (simp add: list_update_append)

lemma closedSegments_butlast:
  assumes "2 \<le> length c" "last c = hd c"
  shows "closedSegments (butlast c) = pathSegments c"
proof -
  have "length (butlast c) = length c - 1" by simp
  with assms(1) have "butlast c \<noteq> []" by (metis One_nat_def Suc_1 diff_is_0_eq length_0_conv not_less_eq_eq)
  then obtain x xs where b: "butlast c = x # xs" by (cases "butlast c") simp_all
  have n: "c \<noteq> []" using assms(1) by auto
  have h: "hd c = x" using b n by (cases c) (auto split: if_splits)
  have c: "c = (x # xs) @ [x]"
    using append_butlast_last_id [OF n] unfolding b assms(2) h by simp
  have "pathSegments c = zip ((x # xs) @ [x]) (xs @ [x])"
    unfolding pathSegments_def by (subst (1 2) c) simp
  also have "\<dots> = zip (x # xs) (xs @ [x])"
    by (rule zip_append1 [THEN trans]) simp
  finally show ?thesis unfolding b closedSegments_def by simp
qed

lemma crossing_collinear:
  assumes "snd P = snd B \<and> snd B = snd C \<or> fst P = fst B \<and> fst B = fst C"
  shows "crossing c (P, C) = crossing c (P, B) + crossing c (B, C)"
  using assms
proof
  assume h: "snd P = snd B \<and> snd B = snd C"
  then have "snd P = snd C" by simp
  from crossing_horizontal [OF this, of c] crossing_horizontal [of P B c] crossing_horizontal [of B C c] h
  show ?thesis by simp
next
  assume "fst P = fst B \<and> fst B = fst C"
  then show ?thesis by (simp add: crossing_vertical)
qed

lemma aligned_merge:
  assumes "aligned P (A, B)" "axial (A, B)" "axial (B, C)" "fst C = fst A \<or> snd C = snd A"
  shows "aligned P (B, C)" 
    and "snd P = snd B \<and> snd B = snd C \<or> fst P = fst B \<and> fst B = fst C"
proof -
  from assms(2) have ab: "(fst A = fst B) \<noteq> (snd A = snd B)" by (simp add: axial_def)
  from assms(3) have bc: "(fst B = fst C) \<noteq> (snd B = snd C)" by (simp add: axial_def)
  from assms(1) have al: "snd P = snd A \<and> snd A = snd B \<or> fst P = fst A \<and> fst A = fst B"
    by (simp add: aligned_def)
  show m: "snd P = snd B \<and> snd B = snd C \<or> fst P = fst B \<and> fst B = fst C"
  proof (cases "snd A = snd B")
    case True
    with ab have x: "fst A \<noteq> fst B" by simp
    with al True have p: "snd P = snd B" by auto
    have "snd B = snd C"
    proof (rule ccontr)
      assume n: "snd B \<noteq> snd C"
      with bc have "fst B = fst C" by simp
      with x n True assms(4) show False by auto
    qed
    with p show ?thesis by simp
  next
    case False
    with ab have x: "fst A = fst B" by simp
    with al False have p: "fst P = fst B" by auto
    have "fst B = fst C"
    proof (rule ccontr)
      assume n: "fst B \<noteq> fst C"
      with bc have "snd B = snd C" by simp
      with x n False assms(4) show False by auto
    qed
    with p show ?thesis by simp
  qed
  then show "aligned P (B, C)" by (simp add: aligned_def)
qed

lemma aligned_turn: "axial (B, C) \<Longrightarrow> aligned B (B, C)"
  by (cases "fst B = fst C") (simp_all add: aligned_def axial_def)

text \<open>
  The chain loop, started in a pool that is balanced except at the two ends of the
  chain, finds a continuation at every step, closes the contour, leaves a balanced pool
  and moves the crossings of the edges it consumes into the contour.
\<close>

lemma followChain_closes:
  assumes "\<forall>e\<in>set pool. axial e" "axial current"
    and "contour = pre @ [P, snd current]" "aligned P current" "hd contour = start0"
    and "\<forall>v. edgeSum (flux v) pool = (if v = snd current then 1 else 0) - (if v = start0 then 1 else 0)"
  shows "\<exists>pool' contour'.
      followChain start0 pool current contour = Some (Inr (pool', contour')) \<and>
      (\<forall>v. edgeSum (flux v) pool' = 0) \<and> set pool' \<subseteq> set pool \<and> length pool' \<le> length pool \<and>
      2 \<le> length contour' \<and> last contour' = start0 \<and> hd contour' = start0 \<and>
      (\<forall>c. edgeSum (crossing c) (pathSegments contour') + edgeSum (crossing c) pool'
           = edgeSum (crossing c) (pathSegments contour) + edgeSum (crossing c) pool)"
  using assms
proof (induction pool arbitrary: current contour pre P rule: measure_induct_rule [where f = length])
  case (less pool)
  note ax = less.prems(1) and axc = less.prems(2) and shape = less.prems(3)
    and al = less.prems(4) and hd0 = less.prems(5) and bal = less.prems(6)
  show ?case
  proof (cases "snd current = start0")
    case True
    have "\<forall>v. edgeSum (flux v) pool = 0" using bal True by simp
    moreover have "2 \<le> length contour" "last contour = start0"
      unfolding shape using True by simp_all
    ultimately show ?thesis
      unfolding followChain_stop [OF True] using hd0 by simp
  next
    case False
    obtain A B where cur: "current = (A, B)" by (cases current)
    have "edgeSum (flux B) pool = 1" using bal [rule_format, of B] False unfolding cur by simp
    then have "filter (\<lambda>edge. fst edge = snd current) pool \<noteq> []"
      unfolding cur using flux_positive [of B pool] by simp
    then obtain nxt more where flt: "filter (\<lambda>edge. fst edge = snd current) pool = nxt # more"
      by (cases "filter (\<lambda>edge. fst edge = snd current) pool") simp_all
    from filter_hd_in [OF flt] have nin: "nxt \<in> set pool" and nst: "fst nxt = B"
      unfolding cur by simp_all
    obtain C where nxt: "nxt = (B, C)" using nst by (cases nxt) simp
    have axn: "axial (B, C)" using ax nin unfolding nxt by blast
    have axab: "axial (A, B)" using axc unfolding cur .
    have alab: "aligned P (A, B)" using al unfolding cur .
    let ?pool1 = "remove1 nxt pool"
    let ?merge = "fst (snd nxt) = fst (fst current) \<or> snd (snd nxt) = snd (fst current)"
    let ?c1 = "if ?merge then contour[length contour - 1 := snd nxt] else contour @ [snd nxt]"
    have l: "length ?pool1 < length pool" using nin by (rule length_remove1_less)
    have ax1: "\<forall>e\<in>set ?pool1. axial e" using ax set_remove1_subset [of nxt pool] by blast
    have bal1: "\<forall>v. edgeSum (flux v) ?pool1
         = (if v = snd nxt then 1 else 0) - (if v = start0 then 1 else 0)"
    proof
      fix v
      from bal [rule_format, of v] have b: "edgeSum (flux v) pool
          = (if v = B then 1 else 0) - (if v = start0 then 1 else 0)"
        unfolding cur by simp
      show "edgeSum (flux v) ?pool1 = (if v = snd nxt then 1 else 0) - (if v = start0 then 1 else 0)"
        unfolding edgeSum_remove1 [OF nin] b unfolding nxt by (simp add: flux_def)
    qed
    have shape1: "\<exists>pre1 P1. ?c1 = pre1 @ [P1, snd nxt] \<and> aligned P1 nxt \<and> hd ?c1 = start0 \<and>
        (\<forall>c. edgeSum (crossing c) (pathSegments ?c1)
            = edgeSum (crossing c) (pathSegments contour) + crossing c nxt)"
    proof (cases ?merge)
      case True
      then have t: "fst C = fst A \<or> snd C = snd A" unfolding cur nxt by simp
      have c1: "?c1 = pre @ [P, C]"
        using True unfolding shape cur nxt by (simp add: list_update_append)
      have h: "hd (pre @ [P, C]) = hd (pre @ [P, B])" by (cases pre) simp_all
      have "crossing c (P, C) = crossing c (P, B) + crossing c (B, C)" for c
        by (rule crossing_collinear) (rule aligned_merge(2) [OF alab axab axn t])
      then have "\<forall>c. edgeSum (crossing c) (pathSegments (pre @ [P, C]))
            = edgeSum (crossing c) (pathSegments (pre @ [P, B])) + crossing c (B, C)"
        unfolding pathSegments_snoc by simp
      with aligned_merge(1) [OF alab axab axn t] h hd0 show ?thesis
        unfolding c1 unfolding shape cur nxt by auto
    next
      case False
      then have c1: "?c1 = (pre @ [P]) @ [B, C]"
        unfolding shape cur nxt by simp
      have h: "hd ((pre @ [P]) @ [B, C]) = hd (pre @ [P, B])" by (cases pre) simp_all
      have "\<forall>c. edgeSum (crossing c) (pathSegments ((pre @ [P]) @ [B, C]))
            = edgeSum (crossing c) (pathSegments (pre @ [P, B])) + crossing c (B, C)"
        unfolding pathSegments_snoc [of "pre @ [P]" B C] by simp
      with aligned_turn [OF axn] h hd0 show ?thesis
        unfolding c1 unfolding shape cur nxt by auto
    qed
    then obtain pre1 P1 where s1: "?c1 = pre1 @ [P1, snd nxt]" and a1: "aligned P1 nxt"
      and h1: "hd ?c1 = start0"
      and x1: "\<And>c. edgeSum (crossing c) (pathSegments ?c1)
            = edgeSum (crossing c) (pathSegments contour) + crossing c nxt"
      by blast
    have axn': "axial nxt" using axn unfolding nxt .
    from less.IH [OF l ax1 axn' s1 a1 h1 bal1]
    obtain pool' contour' where
      r: "followChain start0 ?pool1 nxt ?c1 = Some (Inr (pool', contour'))"
      and b': "\<forall>v. edgeSum (flux v) pool' = 0" and sub: "set pool' \<subseteq> set ?pool1"
      and len: "length pool' \<le> length ?pool1"
      and c': "2 \<le> length contour'" "last contour' = start0" "hd contour' = start0"
      and x': "\<And>c. edgeSum (crossing c) (pathSegments contour') + edgeSum (crossing c) pool'
           = edgeSum (crossing c) (pathSegments ?c1) + edgeSum (crossing c) ?pool1"
      by blast
    have "edgeSum (crossing c) (pathSegments contour') + edgeSum (crossing c) pool'
           = edgeSum (crossing c) (pathSegments contour) + edgeSum (crossing c) pool" for c
      unfolding x' x1 edgeSum_remove1 [OF nin] by simp
    moreover have "set pool' \<subseteq> set pool" using sub set_remove1_subset [of nxt pool] by blast
    moreover have "length pool' \<le> length pool" using len l by simp
    ultimately show ?thesis
      unfolding followChain_step [OF False flt] r using b' c' by simp
  qed
qed

subsection \<open>The contours enclose exactly the filled cells\<close>

lemma winding_Nil [simp]: "winding [] c = 0"
  by (simp add: winding_def)

lemma winding_Cons: "winding (contour # cs) c = edgeSum (crossing c) (closedSegments contour) + winding cs c"
  by (simp add: winding_def edgeSum_def)

lemma balanced_single:
  assumes "axial e" "\<forall>v. edgeSum (flux v) [e] = 0"
  shows False
proof -
  from assms(1) have "fst e \<noteq> snd e" by (auto simp add: axial_def)
  then have "edgeSum (flux (fst e)) [e] = 1" by (simp add: flux_def)
  with assms(2) [rule_format, of "fst e"] show False by simp
qed

lemma stitch_complete:
  assumes "\<forall>e\<in>set pool. axial e" "\<forall>v. edgeSum (flux v) pool = 0"
  shows "\<exists>cs. stitch pool contours = Some (Inr (contours @ cs)) \<and>
           (\<forall>c. winding cs c = edgeSum (crossing c) pool)"
  using assms
proof (induction pool arbitrary: contours rule: measure_induct_rule [where f = length])
  case (less pool)
  note ax = less.prems(1) and bal = less.prems(2)
  show ?case
  proof (cases "1 < length pool")
    case False
    have "pool = []"
    proof (cases pool)
      case Nil
      then show ?thesis .
    next
      case (Cons e rest)
      with False have p: "pool = [e]" by simp
      from balanced_single [of e] ax bal show ?thesis unfolding p by simp
    qed
    then show ?thesis by (simp add: stitch_stop)
  next
    case True
    let ?start = "pool ! 0"
    let ?pool1 = "remove1 ?start pool"
    from True have "0 < length pool" by (rule less_trans [OF zero_less_one])
    then have sin: "?start \<in> set pool" by (rule nth_mem)
    then have l: "length ?pool1 < length pool" by (rule length_remove1_less)
    have axs: "axial ?start" using ax sin by blast
    have ax1: "\<forall>e\<in>set ?pool1. axial e" using ax set_remove1_subset [of ?start pool] by blast
    have al: "aligned (fst ?start) ?start"
      using aligned_turn [of "fst ?start" "snd ?start"] axs by simp
    have bal1: "\<forall>v. edgeSum (flux v) ?pool1
         = (if v = snd ?start then 1 else 0) - (if v = fst ?start then 1 else 0)"
    proof
      fix v
      show "edgeSum (flux v) ?pool1 = (if v = snd ?start then 1 else 0) - (if v = fst ?start then 1 else 0)"
        unfolding edgeSum_remove1 [OF sin] bal [rule_format, of v] by (simp add: flux_def)
    qed
    have shape: "[fst ?start, snd ?start] = [] @ [fst ?start, snd ?start]" by simp
    have hd0: "hd [fst ?start, snd ?start] = fst ?start" by simp
    from followChain_closes [OF ax1 axs shape al hd0 bal1]
    obtain pool' contour' where
      r: "followChain (fst ?start) ?pool1 ?start [fst ?start, snd ?start] = Some (Inr (pool', contour'))"
      and b': "\<forall>v. edgeSum (flux v) pool' = 0" and sub: "set pool' \<subseteq> set ?pool1"
      and len: "length pool' \<le> length ?pool1"
      and c': "2 \<le> length contour'" "last contour' = fst ?start" "hd contour' = fst ?start"
      and x': "\<And>c. edgeSum (crossing c) (pathSegments contour') + edgeSum (crossing c) pool'
           = edgeSum (crossing c) (pathSegments [fst ?start, snd ?start]) + edgeSum (crossing c) ?pool1"
      by blast
    have l': "length pool' < length pool" using len l by simp
    have ax': "\<forall>e\<in>set pool'. axial e" using ax1 sub by blast
    from less.IH [OF l' ax' b', of "contours @ [butlast contour']"]
    obtain cs' where s': "stitch pool' (contours @ [butlast contour']) = Some (Inr ((contours @ [butlast contour']) @ cs'))"
      and w': "\<And>c. winding cs' c = edgeSum (crossing c) pool'"
      by blast
    have cl: "closedSegments (butlast contour') = pathSegments contour'"
      by (rule closedSegments_butlast) (simp_all add: c')
    have "winding (butlast contour' # cs') c = edgeSum (crossing c) pool" for c
    proof -
      have "winding (butlast contour' # cs') c
          = edgeSum (crossing c) (pathSegments contour') + edgeSum (crossing c) pool'"
        unfolding winding_Cons cl w' ..
      also have "\<dots> = crossing c ?start + edgeSum (crossing c) ?pool1"
        unfolding x' by (simp add: pathSegments_def)
      also have "\<dots> = edgeSum (crossing c) pool"
        unfolding edgeSum_remove1 [OF sin] by simp
      finally show ?thesis .
    qed
    then show ?thesis
      unfolding stitch_step [OF True] r using s' by auto
  qed
qed

lemma odd_sum_abs: "odd (sum_list (map (\<lambda>x. nat \<bar>f x\<bar>) xs)) = odd (sum_list (map f xs) :: int)"
proof (induction xs)
  case Nil
  show ?case by simp
next
  case (Cons x xs)
  have "odd (nat \<bar>f x\<bar>) = odd (f x)" by (simp add: even_nat_iff)
  with Cons show ?case by simp
qed

lemma odd_crossings: "odd (crossings cs c) = odd (winding cs c)"
proof (induction cs)
  case Nil
  show ?case by (simp add: crossings_def winding_def)
next
  case (Cons contour cs)
  have "crossings (contour # cs) c
       = sum_list (map (\<lambda>seg. nat \<bar>crossing c seg\<bar>) (closedSegments contour)) + crossings cs c"
    by (simp add: crossings_def)
  moreover have "winding (contour # cs) c
       = sum_list (map (crossing c) (closedSegments contour)) + winding cs c"
    by (simp add: winding_def)
  ultimately show ?case using Cons odd_sum_abs [of "crossing c" "closedSegments contour"] by simp
qed

lemma mergeContours_gridEdges:
  assumes "rectangular g"
  shows "\<exists>cs. mergeContours (gridEdges g) = Some (Inr cs) \<and>
     (\<forall>c. winding cs c = (if filled g (fst c) (snd c) then - 1 else 0))"
proof -
  have ax: "\<forall>e\<in>set (sort (gridEdges g)). axial e"
    using axial_gridEdges [OF assms] by simp
  have bal: "\<forall>v. edgeSum (flux v) (sort (gridEdges g)) = 0"
    unfolding edgeSum_sort using edgeSum_flux_gridEdges [OF assms] by simp
  from stitch_complete [OF ax bal, of "[]"] show ?thesis
    unfolding mergeContours_def edgeSum_sort edgeSum_crossing_gridEdges [OF assms] by simp
qed

text \<open>
  C1. For every rectangular pixel grid, \<open>generateEdges\<close> followed by \<open>mergeContours\<close>
  returns, without error, contours such that the set of unit cells they enclose is
  exactly the set of filled cells of the grid, both by the even-odd rule and by the
  nonzero rule. (Every filled cell has winding number \<open>-1\<close>, the contours being
  clockwise, and every other cell has winding number \<open>0\<close>.)
\<close>

theorem contours_enclose_filled_cells:
  assumes "rectangular g"
  shows "\<exists>es cs. generateEdges g = Inr es \<and> mergeContours es = Some (Inr cs) \<and>
     {c. insideEvenOdd cs c} = {(x, y). filled g x y} \<and>
     {c. insideNonzero cs c} = {(x, y). filled g x y}"
proof -
  from mergeContours_gridEdges [OF assms] obtain cs where
    m: "mergeContours (gridEdges g) = Some (Inr cs)"
    and w: "\<And>c. winding cs c = (if filled g (fst c) (snd c) then - 1 else 0)"
    by blast
  have "insideNonzero cs c = filled g (fst c) (snd c)" for c
    unfolding insideNonzero_def w by simp
  moreover have "insideEvenOdd cs c = filled g (fst c) (snd c)" for c
    unfolding insideEvenOdd_def odd_crossings w by simp
  ultimately show ?thesis using generateEdges_rect [OF assms] m by auto
qed

theorem contours_enclose_filled_cells_witness:
  "rectangular [[True, False], [True, True]] \<and>
   generateEdges [[True, False], [True, True]]
     = Inr [((0, 0), (0, 1)), ((1, 1), (1, 0)), ((1, 0), (0, 0)), ((0, 1), (0, 2)),
            ((0, 2), (1, 2)), ((1, 2), (2, 2)), ((2, 2), (2, 1)), ((2, 1), (1, 1))] \<and>
   mergeContours [((0, 0), (0, 1)), ((1, 1), (1, 0)), ((1, 0), (0, 0)), ((0, 1), (0, 2)),
            ((0, 2), (1, 2)), ((1, 2), (2, 2)), ((2, 2), (2, 1)), ((2, 1), (1, 1))]
     = Some (Inr [[(0, 0), (0, 2), (2, 2), (2, 1), (1, 1), (1, 0)]]) \<and>
   {c. insideEvenOdd [[(0, 0), (0, 2), (2, 2), (2, 1), (1, 1), (1, 0)]] c}
     = {(x, y). filled [[True, False], [True, True]] x y} \<and>
   {c. insideNonzero [[(0, 0), (0, 2), (2, 2), (2, 1), (1, 1), (1, 0)]] c}
     = {(x, y). filled [[True, False], [True, True]] x y}"
proof -
  have r: "rectangular [[True, False], [True, True]]" by (simp add: rectangular_def)
  have g: "generateEdges [[True, False], [True, True]]
     = Inr [((0, 0), (0, 1)), ((1, 1), (1, 0)), ((1, 0), (0, 0)), ((0, 1), (0, 2)),
            ((0, 2), (1, 2)), ((1, 2), (2, 2)), ((2, 2), (2, 1)), ((2, 1), (1, 1))]"
    by code_simp
  have m: "mergeContours [((0, 0), (0, 1)), ((1, 1), (1, 0)), ((1, 0), (0, 0)), ((0, 1), (0, 2)),
            ((0, 2), (1, 2)), ((1, 2), (2, 2)), ((2, 2), (2, 1)), ((2, 1), (1, 1))]
     = Some (Inr [[(0, 0), (0, 2), (2, 2), (2, 1), (1, 1), (1, 0)]])"
    by code_simp
  show ?thesis
    using contours_enclose_filled_cells [OF r] r unfolding g using m by simp
qed

subsection \<open>The pipeline on a bitmap with a positive scale\<close>

text \<open>
  For a positive scale \<open>vectorizeGlyph\<close> never raises: the result is the contour list
  of the unscaled edges, with every point scaled.
\<close>

lemma vectorizeGlyph_succeeds:
  assumes "0 < pixelSize" "rows \<noteq> []"
  shows "\<exists>cs. mergeContours (gridEdges (unpackChar rows)) = Some (Inr cs) \<and>
     vectorizeGlyph (Some rows) pixelSize descent
       = Some (Inr (map (map (scalePoint pixelSize descent)) cs))"
proof -
  from mergeContours_gridEdges [OF rectangular_unpackChar [OF assms(2)]]
  obtain cs where m: "mergeContours (gridEdges (unpackChar rows)) = Some (Inr cs)" by blast
  show ?thesis
    unfolding vectorizeGlyph_scaled [OF assms] m by (simp add: mapResult_def)
qed

end
